theory Spec2Isabelle
  imports Main "HOL-Library.Sublist"
begin

section \<open>Wire data (main.go, lines 18-58)\<close>

text \<open>
  Go strings are byte sequences; they are modelled as \<^typ>\<open>string\<close>, one \<^typ>\<open>char\<close>
  per byte.
\<close>

record Message =
  Role :: string
  Content :: string

record StreamChoice =
  Delta :: Message
  FinishReason :: string
  Index :: int

record Error =
  Code :: string
  Message :: string

record StreamResponse =
  ID :: string
  Object :: string
  Created :: int
  Choices :: "StreamChoice list"
  Error :: "Error option"

text \<open>
  \<open>json.Unmarshal\<close> belongs to the Go standard library and is taken as a parameter: a
  decoder maps the payload of a data frame to the decoded chunk, or to \<open>None\<close> where
  \<open>json.Unmarshal\<close> returns an error. The variable \<open>streamResp\<close> is declared afresh in
  every iteration (line 154), so nothing is carried over from one frame to the next.
\<close>

type_synonym decoder = "string \<Rightarrow> StreamResponse option"

section \<open>The streaming response consumer (sendStreamRequest, lines 88-183)\<close>

text \<open>\<open>strings.HasPrefix\<close> and \<open>strings.TrimPrefix\<close> of the Go standard library.\<close>

definition HasPrefix :: "string \<Rightarrow> string \<Rightarrow> bool" where
  "HasPrefix s pre = prefix pre s"

definition TrimPrefix :: "string \<Rightarrow> string \<Rightarrow> string" where
  "TrimPrefix s pre = (if HasPrefix s pre then drop (length pre) s else s)"

text \<open>The frame that carries a payload (the data marker is \<open>data: \<close>).\<close>

definition data_frame :: "string \<Rightarrow> string" where
  "data_frame payload = ''data: '' @ payload"

text \<open>
  What the consumer does to the outside while it reads the stream: the rendezvous with the
  animation goroutine of lines 164-165 (\<open>stopChan <- true; <-doneChan\<close>), and the
  printing of a delta (line 168).
\<close>

datatype event = StopAnimation | Emit string

text \<open>
  The read loop of lines 142-172 over the lines that \<open>scanner.Scan\<close> delivers, with the
  two loop variables \<open>fullContent\<close> and \<open>firstContent\<close>. The result is the events in
  the order in which they happen, and \<open>fullContent\<close> when the loop is left; \<open>None\<close>
  stands for the run-time panic of line 160, where \<open>streamResp.Choices[0]\<close> indexes an
  empty slice.
\<close>

fun scan_loop :: "decoder \<Rightarrow> string list \<Rightarrow> string \<Rightarrow> bool \<Rightarrow> event list \<times> string option" where
  "scan_loop um [] fullContent firstContent = ([], Some fullContent)"
| "scan_loop um (line # rest) fullContent firstContent =
     (if line = [] \<or> HasPrefix line '': '' then scan_loop um rest fullContent firstContent
      else if HasPrefix line ''data: '' then
        (let payload = TrimPrefix line ''data: '' in
         if payload = ''[DONE]'' then ([], Some fullContent)
         else
           (case um payload of
              None \<Rightarrow> scan_loop um rest fullContent firstContent
            | Some streamResp \<Rightarrow>
                (case Choices streamResp of
                   [] \<Rightarrow> ([], None)
                 | choice # _ \<Rightarrow>
                     (let content = Content (Delta choice) in
                      if content \<noteq> [] then
                        (let (evs, r) = scan_loop um rest (fullContent @ content) False in
                         ((if firstContent then [StopAnimation] else []) @ Emit content # evs, r))
                      else scan_loop um rest fullContent firstContent))))
      else scan_loop um rest fullContent firstContent)"

text \<open>
  What the network does with the one request that is built and sent (lines 99-133):
  \<open>json.Marshal\<close> or \<open>http.NewRequest\<close> may return an error, \<open>client.Do\<close> may return
  an error (the flag is \<open>os.IsTimeout\<close>), or a response arrives with its status code, the
  lines the scanner delivers from its body, and whether \<open>scanner.Err()\<close> is non-nil when the
  loop has been left (line 174).
\<close>

datatype reply =
    MarshalError
  | NewRequestError
  | DoError bool
  | Response int "string list" bool

datatype failure =
    BuildBodyFailed
  | CreateRequestFailed
  | SendFailed bool
  | BadStatus int
  | ReadFailed
  | EmptyAnswer

text \<open>A call either returns (an error or a value) or the goroutine panics.\<close>

datatype 'a outcome = Panics | Returns 'a

definition StatusOK :: int where
  "StatusOK = 200"

definition sendStreamRequest ::
    "decoder \<Rightarrow> (Message list \<Rightarrow> reply) \<Rightarrow> Message list \<Rightarrow> event list \<times> (failure + string) outcome" where
  "sendStreamRequest um net messages =
     (case net messages of
        MarshalError \<Rightarrow> ([], Returns (Inl BuildBodyFailed))
      | NewRequestError \<Rightarrow> ([], Returns (Inl CreateRequestFailed))
      | DoError timeout \<Rightarrow> ([], Returns (Inl (SendFailed timeout)))
      | Response status lines scanErr \<Rightarrow>
          if status \<noteq> StatusOK then ([], Returns (Inl (BadStatus status)))
          else
            (case scan_loop um lines [] True of
               (evs, None) \<Rightarrow> (evs, Panics)
             | (evs, Some fullContent) \<Rightarrow>
                 (evs, Returns (if scanErr then Inl ReadFailed
                                else if fullContent = [] then Inl EmptyAnswer
                                else Inr fullContent))))"

text \<open>
  The reply text as section 4.3 of the specification words it: of the frames before the
  terminator, the data frames that parse contribute the delta of their first choice, and
  the non-empty deltas are concatenated in order. This definition follows the
  specification, not the code; \<open>scan_loop\<close> above is the code.
\<close>

definition before_terminator :: "string list \<Rightarrow> string list" where
  "before_terminator lines = takeWhile (\<lambda>l. l \<noteq> ''data: [DONE]'') lines"

definition frame_delta :: "decoder \<Rightarrow> string \<Rightarrow> string list" where
  "frame_delta um line =
     (if HasPrefix line ''data: '' then
        (case um (TrimPrefix line ''data: '') of
           None \<Rightarrow> []
         | Some chunk \<Rightarrow> (case Choices chunk of [] \<Rightarrow> [] | choice # _ \<Rightarrow> [Content (Delta choice)]))
      else [])"

definition spec_deltas :: "decoder \<Rightarrow> string list \<Rightarrow> string list" where
  "spec_deltas um lines =
     filter (\<lambda>d. d \<noteq> []) (concat (map (frame_delta um) (before_terminator lines)))"

text \<open>No frame before the terminator is a data frame that parses to a chunk without choices.\<close>

definition has_choices :: "decoder \<Rightarrow> string list \<Rightarrow> bool" where
  "has_choices um lines =
     (\<forall>l \<in> set (before_terminator lines). HasPrefix l ''data: '' \<longrightarrow>
        (case um (TrimPrefix l ''data: '') of None \<Rightarrow> True | Some chunk \<Rightarrow> Choices chunk \<noteq> []))"

section \<open>Input trimming (strings.TrimSpace, line 187)\<close>

text \<open>
  \<open>strings.TrimSpace\<close> removes the leading and the trailing white space of a string, as
  \<open>unicode.IsSpace\<close> defines it: the runes U+0009 to U+000D, U+0020, U+0085, U+00A0,
  U+1680, U+2000 to U+200A, U+2028, U+2029, U+202F, U+205F and U+3000. On the bytes of
  the string these are the UTF-8 encodings below. A byte sequence that is not valid UTF-8
  decodes to U+FFFD, which is not white space, so that trimming stops there.
\<close>

definition whiteSpace :: "string list" where
  "whiteSpace =
     [[CHR 0x09], [CHR 0x0A], [CHR 0x0B], [CHR 0x0C], [CHR 0x0D], [CHR 0x20],
      [CHR 0xC2, CHR 0x85], [CHR 0xC2, CHR 0xA0],
      [CHR 0xE1, CHR 0x9A, CHR 0x80],
      [CHR 0xE2, CHR 0x80, CHR 0x80], [CHR 0xE2, CHR 0x80, CHR 0x81],
      [CHR 0xE2, CHR 0x80, CHR 0x82], [CHR 0xE2, CHR 0x80, CHR 0x83],
      [CHR 0xE2, CHR 0x80, CHR 0x84], [CHR 0xE2, CHR 0x80, CHR 0x85],
      [CHR 0xE2, CHR 0x80, CHR 0x86], [CHR 0xE2, CHR 0x80, CHR 0x87],
      [CHR 0xE2, CHR 0x80, CHR 0x88], [CHR 0xE2, CHR 0x80, CHR 0x89],
      [CHR 0xE2, CHR 0x80, CHR 0x8A],
      [CHR 0xE2, CHR 0x80, CHR 0xA8], [CHR 0xE2, CHR 0x80, CHR 0xA9],
      [CHR 0xE2, CHR 0x80, CHR 0xAF],
      [CHR 0xE2, CHR 0x81, CHR 0x9F],
      [CHR 0xE3, CHR 0x80, CHR 0x80]]"

text \<open>The number of bytes of the white-space rune at the front (at the end) of a string, 0 if there is none.\<close>

definition leading_space :: "string \<Rightarrow> nat" where
  "leading_space s = (case find (\<lambda>e. prefix e s) whiteSpace of None \<Rightarrow> 0 | Some e \<Rightarrow> length e)"

definition trailing_space :: "string \<Rightarrow> nat" where
  "trailing_space s = (case find (\<lambda>e. suffix e s) whiteSpace of None \<Rightarrow> 0 | Some e \<Rightarrow> length e)"

function TrimLeft :: "string \<Rightarrow> string" where
  "TrimLeft s = (if leading_space s = 0 \<or> s = [] then s else TrimLeft (drop (leading_space s) s))"
  by pat_completeness auto
termination
  by (relation "measure length") auto

function TrimRight :: "string \<Rightarrow> string" where
  "TrimRight s = (if trailing_space s = 0 \<or> s = [] then s
                  else TrimRight (take (length s - trailing_space s) s))"
  by pat_completeness auto
termination
  by (relation "measure length") auto

definition TrimSpace :: "string \<Rightarrow> string" where
  "TrimSpace s = TrimRight (TrimLeft s)"

text \<open>A string that consists of white-space runes only.\<close>

definition blank :: "string \<Rightarrow> bool" where
  "blank s = (\<exists>ws. set ws \<subseteq> set whiteSpace \<and> s = concat ws)"

section \<open>The two goroutines of a turn (loadingAnimation, lines 66-85; executor, lines 209-243)\<close>

text \<open>
  What the terminal receives: the banner of line 68, an animation frame of line 80 with
  its number of dots, the bare label of line 76, a piece of reply text (line 168), the
  error line of line 236 and the blank lines of line 243.
\<close>

datatype printed = Thinking | Dots nat | Label | Text string | ErrorText failure | Newlines

text \<open>
  The statements of the main goroutine that remain to be executed once the animation has
  been started (line 218), in source order:
  \<^item> \<open>SendStop\<close> is \<open>stopChan <- true\<close> (line 164) and \<open>RecvDone\<close> is \<open><-doneChan\<close>
    (lines 165 and 226);
  \<^item> \<open>Print\<close> is line 168;
  \<^item> \<open>TrySendStop\<close> is the \<open>select\<close> of lines 224-229, whose send case continues with
    \<open>RecvDone\<close>;
  \<^item> \<open>WgWait\<close> is \<open>wg.Wait()\<close> (line 230); the two \<open>close\<close> calls that follow have no
    effect on either goroutine and are left out;
  \<^item> \<open>Rollback\<close> is lines 236-238, \<open>Commit\<close> is lines 242-243;
  \<^item> \<open>Panic\<close> is the index panic of line 160.
\<close>

datatype instr =
    SendStop
  | RecvDone
  | Print string
  | TrySendStop
  | WgWait
  | Rollback failure
  | Commit string
  | Panic

text \<open>
  The control points of \<open>loadingAnimation\<close>: before line 68; at the \<open>select\<close> of line
  73 with the value of \<open>idx\<close>; the stop signal received, before line 76; before the send
  of line 77; suspended in that send; before the return of line 78, with the deferred
  \<open>wg.Done()\<close> still to run; returned.
\<close>

datatype anim_pc =
    AnimEntry
  | AnimSelect nat
  | AnimGotStop
  | AnimSendDone
  | AnimParked
  | AnimReturning
  | AnimExited

text \<open>
  The state of a turn. \<open>parked\<close> says that the main goroutine is suspended inside the
  channel operation at the head of its script; \<open>crashed\<close> that the process has died of a
  panic. Both channels are unbuffered, so the queue of goroutines waiting on a channel is
  all the state a channel has, and with two goroutines it can be read off the two control
  points.
\<close>

record world =
  script :: "instr list"
  parked :: bool
  crashed :: bool
  animpc :: anim_pc
  wg :: nat
  conversationHistory :: "Message list"
  terminal :: "printed list"

text \<open>
  Is the animation goroutine suspended in a receive on \<open>stopChan\<close>? Its only receive on
  that channel is the first case of a \<open>select\<close> that has a \<open>default\<close> (lines 73-83);
  such a \<open>select\<close> never suspends the goroutine, it takes \<open>default\<close> when no sender is
  waiting. So the answer is no at every control point.
\<close>

fun waits_for_stop :: "anim_pc \<Rightarrow> bool" where
  "waits_for_stop AnimEntry = False"
| "waits_for_stop (AnimSelect idx) = False"
| "waits_for_stop AnimGotStop = False"
| "waits_for_stop AnimSendDone = False"
| "waits_for_stop AnimParked = False"
| "waits_for_stop AnimReturning = False"
| "waits_for_stop AnimExited = False"

text \<open>The main goroutine is suspended in \<open>stopChan <- true\<close>, respectively in \<open><-doneChan\<close>.\<close>

definition stop_sender_waiting :: "world \<Rightarrow> bool" where
  "stop_sender_waiting w = (parked w \<and> (case script w of SendStop # _ \<Rightarrow> True | _ \<Rightarrow> False))"

definition done_receiver_waiting :: "world \<Rightarrow> bool" where
  "done_receiver_waiting w = (parked w \<and> (case script w of RecvDone # _ \<Rightarrow> True | _ \<Rightarrow> False))"

text \<open>
  One statement of the main goroutine, \<open>k\<close> being the statements after it. A send on an
  unbuffered channel proceeds when a receiver is waiting; otherwise a plain send suspends
  the sender, and the send case of a \<open>select\<close> with \<open>default\<close> is not taken. A receive
  proceeds when a sender is waiting and suspends the receiver otherwise. Slicing an empty
  history at line 237 would panic.
\<close>

fun exec_instr :: "instr \<Rightarrow> instr list \<Rightarrow> world \<Rightarrow> world" where
  "exec_instr SendStop k w =
     (if waits_for_stop (animpc w) then w\<lparr>script := k, animpc := AnimGotStop\<rparr>
      else w\<lparr>parked := True\<rparr>)"
| "exec_instr RecvDone k w =
     (if animpc w = AnimParked then w\<lparr>script := k, animpc := AnimReturning\<rparr>
      else w\<lparr>parked := True\<rparr>)"
| "exec_instr (Print content) k w = w\<lparr>script := k, terminal := terminal w @ [Text content]\<rparr>"
| "exec_instr TrySendStop k w =
     (if waits_for_stop (animpc w) then w\<lparr>script := RecvDone # k, animpc := AnimGotStop\<rparr>
      else w\<lparr>script := k\<rparr>)"
| "exec_instr WgWait k w = (if wg w = 0 then w\<lparr>script := k\<rparr> else w)"
| "exec_instr (Rollback err) k w =
     (if conversationHistory w = [] then w\<lparr>crashed := True\<rparr>
      else w\<lparr>script := k, conversationHistory := butlast (conversationHistory w),
             terminal := terminal w @ [ErrorText err]\<rparr>)"
| "exec_instr (Commit fullContent) k w =
     w\<lparr>script := k,
       conversationHistory := conversationHistory w @ [\<lparr>Role = ''assistant'', Content = fullContent\<rparr>],
       terminal := terminal w @ [Newlines]\<rparr>"
| "exec_instr Panic k w = w\<lparr>crashed := True\<rparr>"

definition main_step :: "world \<Rightarrow> world" where
  "main_step w =
     (if crashed w \<or> parked w then w
      else case script w of [] \<Rightarrow> w | i # k \<Rightarrow> exec_instr i k w)"

text \<open>
  One step of the animation goroutine. At the \<open>select\<close> it receives when the main
  goroutine is waiting to send and wakes it up, and prints the next frame otherwise (the
  sleep of line 82 is not modelled). At line 77 it hands over to a waiting receiver or
  suspends itself.
\<close>

fun anim_exec :: "anim_pc \<Rightarrow> world \<Rightarrow> world" where
  "anim_exec AnimEntry w = w\<lparr>animpc := AnimSelect 0, terminal := terminal w @ [Thinking]\<rparr>"
| "anim_exec (AnimSelect idx) w =
     (if stop_sender_waiting w
      then w\<lparr>script := tl (script w), parked := False, animpc := AnimGotStop\<rparr>
      else w\<lparr>animpc := AnimSelect (idx + 1), terminal := terminal w @ [Dots (idx mod 4 + 1)]\<rparr>)"
| "anim_exec AnimGotStop w = w\<lparr>animpc := AnimSendDone, terminal := terminal w @ [Label]\<rparr>"
| "anim_exec AnimSendDone w =
     (if done_receiver_waiting w
      then w\<lparr>script := tl (script w), parked := False, animpc := AnimReturning\<rparr>
      else w\<lparr>animpc := AnimParked\<rparr>)"
| "anim_exec AnimParked w = w"
| "anim_exec AnimReturning w = w\<lparr>animpc := AnimExited, wg := wg w - 1\<rparr>"
| "anim_exec AnimExited w = w"

definition anim_step :: "world \<Rightarrow> world" where
  "anim_step w = (if crashed w then w else anim_exec (animpc w) w)"

text \<open>A schedule says which goroutine moves next; a goroutine that cannot move stays put.\<close>

datatype thread = MainG | AnimG

fun step :: "thread \<Rightarrow> world \<Rightarrow> world" where
  "step MainG w = main_step w"
| "step AnimG w = anim_step w"

definition run :: "thread list \<Rightarrow> world \<Rightarrow> world" where
  "run sched w = fold step sched w"

text \<open>\<open>executor\<close> has returned to the prompt.\<close>

definition returned :: "world \<Rightarrow> bool" where
  "returned w = (script w = [] \<and> \<not> crashed w)"

section \<open>The turn controller (executor, lines 186-244)\<close>

fun event_instrs :: "event \<Rightarrow> instr list" where
  "event_instrs StopAnimation = [SendStop, RecvDone]"
| "event_instrs (Emit content) = [Print content]"

text \<open>
  Lines 234-243: on an error the last message is removed from the history, otherwise the
  assistant message is appended.
\<close>

fun reconcile :: "failure + string \<Rightarrow> instr" where
  "reconcile (Inl err) = Rollback err"
| "reconcile (Inr fullContent) = Commit fullContent"

text \<open>Lines 221-243: the call of \<open>sendStreamRequest\<close> and what follows it.\<close>

fun executor_script :: "event list \<times> (failure + string) outcome \<Rightarrow> instr list" where
  "executor_script (evs, Panics) = concat (map event_instrs evs) @ [Panic]"
| "executor_script (evs, Returns r) =
     concat (map event_instrs evs) @ [TrySendStop, WgWait, reconcile r]"

text \<open>
  What \<open>executor\<close> does with an input line and the global \<open>conversationHistory\<close>: it leaves
  the process with an exit code (line 192), returns to the prompt with a history and
  without a request (lines 199 and 205), or appends the user message and starts the
  animation goroutine (lines 209-218); from there the two goroutines run as above.
\<close>

datatype started = ExitProcess int | Prompt "Message list" | Turn world

definition executor :: "decoder \<Rightarrow> (Message list \<Rightarrow> reply) \<Rightarrow> string \<Rightarrow> Message list \<Rightarrow> started" where
  "executor um net input history =
     (let inp = TrimSpace input in
      if inp = ''q'' \<or> inp = ''quit'' then ExitProcess 0
      else if inp = ''clear'' then Prompt []
      else if inp = [] then Prompt history
      else
        (let messages = history @ [\<lparr>Role = ''user'', Content = inp\<rparr>] in
         Turn \<lparr>script = executor_script (sendStreamRequest um net messages),
               parked = False, crashed = False, animpc = AnimEntry, wg = 1,
               conversationHistory = messages, terminal = []\<rparr>))"

text \<open>
  A sequence of turns, each with its network, its input line and its schedule, all of
  which are successful: the consumer returns a reply text and \<open>executor\<close> returns. The
  result is the history after the last turn.
\<close>

fun successful_turns ::
    "decoder \<Rightarrow> ((Message list \<Rightarrow> reply) \<times> string \<times> thread list) list \<Rightarrow> Message list \<Rightarrow> Message list option" where
  "successful_turns um [] history = Some history"
| "successful_turns um ((net, input, sched) # turns) history =
     (case executor um net input history of
        Turn w \<Rightarrow>
          (case snd (sendStreamRequest um net (conversationHistory w)) of
             Returns (Inr fullContent) \<Rightarrow>
               if returned (run sched w) then successful_turns um turns (conversationHistory (run sched w))
               else None
           | _ \<Rightarrow> None)
      | _ \<Rightarrow> None)"

text \<open>The history is empty or ends with a user message followed by an assistant message.\<close>

definition paired :: "Message list \<Rightarrow> bool" where
  "paired history =
     (history = [] \<or>
      (\<exists>h u a. history = h @ [u, a] \<and> Role u = ''user'' \<and> Role a = ''assistant''))"

section \<open>Invariants of a turn\<close>

text \<open>The history that \<open>reconcile\<close> leaves behind.\<close>

fun reconciled :: "failure + string \<Rightarrow> Message list \<Rightarrow> Message list" where
  "reconciled (Inl err) history = butlast history"
| "reconciled (Inr fullContent) history = history @ [\<lparr>Role = ''assistant'', Content = fullContent\<rparr>]"

text \<open>The animation goroutine is still in its loop.\<close>

definition animating :: "anim_pc \<Rightarrow> bool" where
  "animating pc = (pc = AnimEntry \<or> (\<exists>idx. pc = AnimSelect idx))"

text \<open>
  The states of a turn in which \<open>sendStreamRequest\<close> has returned without ever sending
  the stop signal: the animation is in its loop, and the main goroutine is at the
  \<open>select\<close> of line 224 or at \<open>wg.Wait()\<close>.
\<close>

definition never_stopped :: "Message list \<Rightarrow> failure + string \<Rightarrow> world \<Rightarrow> bool" where
  "never_stopped H r w =
     (\<not> parked w \<and> \<not> crashed w \<and> wg w = 1 \<and> conversationHistory w = H \<and> animating (animpc w) \<and>
      (script w = [TrySendStop, WgWait, reconcile r] \<or> script w = [WgWait, reconcile r]))"

text \<open>
  The states of the rendezvous of lines 164-165, \<open>k\<close> being what the main goroutine does
  after it: the stop signal is not yet received; it is received and the acknowledgement not
  yet exchanged; the animation is suspended in the acknowledgement.
\<close>

definition stopping :: "Message list \<Rightarrow> instr list \<Rightarrow> world \<Rightarrow> bool" where
  "stopping H k w =
     (\<not> crashed w \<and> wg w = 1 \<and> conversationHistory w = H \<and>
      (script w = SendStop # RecvDone # k \<and> animating (animpc w)
       \<or> script w = RecvDone # k \<and> (animpc w = AnimGotStop \<or> animpc w = AnimSendDone)
       \<or> script w = RecvDone # k \<and> animpc w = AnimParked \<and> \<not> parked w))"

text \<open>The states after the rendezvous: the animation returns, the main goroutine runs on alone.\<close>

definition stopped :: "Message list \<Rightarrow> failure + string \<Rightarrow> world \<Rightarrow> bool" where
  "stopped H r w =
     (\<not> crashed w \<and> \<not> parked w \<and> H \<noteq> [] \<and>
      (animpc w = AnimReturning \<and> wg w = 1 \<or> animpc w = AnimExited \<and> wg w = 0) \<and>
      (conversationHistory w = H \<and>
         ((\<exists>ds. script w = map Print ds @ [TrySendStop, WgWait, reconcile r])
          \<or> script w = [WgWait, reconcile r] \<or> script w = [reconcile r])
       \<or> conversationHistory w = reconciled r H \<and> script w = []))"

definition in_turn :: "Message list \<Rightarrow> string list \<Rightarrow> failure + string \<Rightarrow> world \<Rightarrow> bool" where
  "in_turn H ds r w =
     (H \<noteq> [] \<and> (stopping H (map Print ds @ [TrySendStop, WgWait, reconcile r]) w \<or> stopped H r w))"

text \<open>A measure of what is left to do in a turn, for the proof that a turn can always be completed.\<close>

fun anim_rank :: "anim_pc \<Rightarrow> nat" where
  "anim_rank AnimEntry = 5"
| "anim_rank (AnimSelect idx) = 4"
| "anim_rank AnimGotStop = 3"
| "anim_rank AnimSendDone = 2"
| "anim_rank AnimParked = 1"
| "anim_rank AnimReturning = 1"
| "anim_rank AnimExited = 0"

definition remaining :: "world \<Rightarrow> nat" where
  "remaining w = 4 * length (script w) + (if parked w then 0 else 1) + anim_rank (animpc w)"

section \<open>Sample inputs\<close>

text \<open>
  A chunk with one choice and the given delta, and a decoder that knows a handful of
  payloads; it stands in for \<open>json.Unmarshal\<close> in the examples.
\<close>

definition delta_chunk :: "string \<Rightarrow> StreamResponse" where
  "delta_chunk content =
     \<lparr>ID = [], Object = [], Created = 0,
      Choices = [\<lparr>Delta = \<lparr>Role = ''assistant'', Content = content\<rparr>, FinishReason = [], Index = 0\<rparr>],
      Error = None\<rparr>"

definition sample_decoder :: decoder where
  \<open>sample_decoder payload =
     (if payload = ''{"choices":[{"delta":{"content":"Hi"}}]}'' then Some (delta_chunk ''Hi'')
      else if payload = ''{"choices":[{"delta":{"content":"A"}}]}'' then Some (delta_chunk ''A'')
      else if payload = ''{"choices":[{"delta":{"content":""}}]}'' then Some (delta_chunk [])
      else if payload = ''{"choices":[{"delta":{"content":"B"}}]}'' then Some (delta_chunk ''B'')
      else if payload = ''{"choices":[]}'' then Some ((delta_chunk [])\<lparr>Choices := []\<rparr>)
      else if payload = ''{"choices":[{"delta":{"content":""}}],"error":{"code":"429","message":"busy"}}''
        then Some ((delta_chunk [])\<lparr>Error := Some \<lparr>Code = ''429'', Message = ''busy''\<rparr>\<rparr>)
      else None)\<close>

text \<open>A network that answers every request with the given status and body.\<close>

definition answers :: "int \<Rightarrow> string list \<Rightarrow> Message list \<Rightarrow> reply" where
  "answers status lines messages = Response status lines False"

section \<open>Properties of the read loop\<close>

lemma data_frame_cases:
  assumes "HasPrefix l ''data: ''"
  shows "l \<noteq> []" and "\<not> HasPrefix l '': ''"
    and "TrimPrefix l ''data: '' = ''[DONE]'' \<longleftrightarrow> l = ''data: [DONE]''"
  using assms by (auto simp: HasPrefix_def TrimPrefix_def prefix_def)

lemma scan_loop_terminator:
  "scan_loop um (''data: [DONE]'' # rest) full first = ([], Some full)"
  by (simp add: HasPrefix_def TrimPrefix_def)

lemma scan_loop_no_data:
  "\<not> HasPrefix l ''data: '' \<Longrightarrow> scan_loop um (l # rest) full first = scan_loop um rest full first"
  by simp

lemma scan_loop_data:
  assumes "HasPrefix l ''data: ''" and "l \<noteq> ''data: [DONE]''"
  shows "scan_loop um (l # rest) full first =
     (case um (TrimPrefix l ''data: '') of
        None \<Rightarrow> scan_loop um rest full first
      | Some chunk \<Rightarrow>
          (case Choices chunk of
             [] \<Rightarrow> ([], None)
           | choice # _ \<Rightarrow>
               if Content (Delta choice) \<noteq> [] then
                 ((if first then [StopAnimation] else []) @ Emit (Content (Delta choice)) #
                    fst (scan_loop um rest (full @ Content (Delta choice)) False),
                  snd (scan_loop um rest (full @ Content (Delta choice)) False))
               else scan_loop um rest full first))"
  using data_frame_cases[OF assms(1)] assms
  by (simp add: Let_def case_prod_beta split: option.splits list.splits)

declare scan_loop.simps(2) [simp del]

lemma spec_deltas_Nil: "spec_deltas um [] = []"
  by (simp add: spec_deltas_def before_terminator_def)

lemma spec_deltas_terminator: "spec_deltas um (''data: [DONE]'' # rest) = []"
  by (simp add: spec_deltas_def before_terminator_def)

lemma spec_deltas_Cons:
  "l \<noteq> ''data: [DONE]'' \<Longrightarrow>
   spec_deltas um (l # ls) = filter (\<lambda>d. d \<noteq> []) (frame_delta um l) @ spec_deltas um ls"
  by (simp add: spec_deltas_def before_terminator_def)

lemma spec_deltas_nonempty: "d \<in> set (spec_deltas um ls) \<Longrightarrow> d \<noteq> []"
  by (simp add: spec_deltas_def)

lemma has_choices_Cons:
  "l \<noteq> ''data: [DONE]'' \<Longrightarrow>
   has_choices um (l # ls) \<longleftrightarrow>
     (HasPrefix l ''data: '' \<longrightarrow>
        (case um (TrimPrefix l ''data: '') of None \<Rightarrow> True | Some chunk \<Rightarrow> Choices chunk \<noteq> []))
     \<and> has_choices um ls"
  by (simp add: has_choices_def before_terminator_def)

lemma has_choices_Nil: "has_choices um []"
  by (simp add: has_choices_def before_terminator_def)

lemma has_choices_terminator: "has_choices um (''data: [DONE]'' # rest)"
  by (simp add: has_choices_def before_terminator_def)

text \<open>On a stream without a chunk that lacks choices, the loop computes what the specification says.\<close>

lemma scan_loop_spec:
  "has_choices um ls \<Longrightarrow>
   scan_loop um ls full first =
     ((if first \<and> spec_deltas um ls \<noteq> [] then [StopAnimation] else []) @ map Emit (spec_deltas um ls),
      Some (full @ concat (spec_deltas um ls)))"
proof (induction ls arbitrary: full first)
  case Nil
  then show ?case by (simp add: spec_deltas_Nil)
next
  case (Cons l ls)
  show ?case
  proof (cases "l = ''data: [DONE]''")
    case True
    then show ?thesis by (simp add: scan_loop_terminator spec_deltas_terminator)
  next
    case False
    note nt = this
    from Cons.prems have hc: "has_choices um ls" and
      here: "HasPrefix l ''data: '' \<longrightarrow>
        (case um (TrimPrefix l ''data: '') of None \<Rightarrow> True | Some chunk \<Rightarrow> Choices chunk \<noteq> [])"
      by (simp_all add: has_choices_Cons[OF nt])
    note IH = Cons.IH[OF hc]
    show ?thesis
    proof (cases "HasPrefix l ''data: ''")
      case True
      show ?thesis
      proof (cases "um (TrimPrefix l ''data: '')")
        case None
        then show ?thesis using True IH
          by (simp add: scan_loop_data[OF True nt] spec_deltas_Cons[OF nt] frame_delta_def)
      next
        case (Some chunk)
        then obtain c cs where ch: "Choices chunk = c # cs"
          using here True by (cases "Choices chunk") auto
        show ?thesis using True IH Some ch
          by (simp add: scan_loop_data[OF True nt] spec_deltas_Cons[OF nt] frame_delta_def)
      qed
    next
      case False
      then show ?thesis using IH
        by (simp add: scan_loop_no_data spec_deltas_Cons[OF nt] frame_delta_def)
    qed
  qed
qed

text \<open>On any other stream the loop ends in the panic.\<close>

lemma scan_loop_None:
  "\<not> has_choices um ls \<Longrightarrow> snd (scan_loop um ls full first) = None"
proof (induction ls arbitrary: full first)
  case Nil
  then show ?case by (simp add: has_choices_Nil)
next
  case (Cons l ls)
  have nt: "l \<noteq> ''data: [DONE]''" using Cons.prems has_choices_terminator by auto
  show ?case
  proof (cases "HasPrefix l ''data: ''")
    case True
    show ?thesis using Cons.prems Cons.IH True
      by (auto simp: scan_loop_data[OF True nt] has_choices_Cons[OF nt] split: option.splits list.splits)
  next
    case False
    then show ?thesis using Cons by (simp add: scan_loop_no_data has_choices_Cons[OF nt])
  qed
qed

text \<open>A frame that the loop passes over can be removed from the stream.\<close>

lemma scan_loop_skip:
  assumes "\<And>full first. scan_loop um (l # post) full first = scan_loop um post full first"
  shows "scan_loop um (pre @ l # post) full first = scan_loop um (pre @ post) full first"
proof (induction pre arbitrary: full first)
  case Nil
  then show ?case using assms by simp
next
  case (Cons a pre)
  show ?case
  proof (cases "HasPrefix a ''data: ''")
    case True
    show ?thesis
    proof (cases "a = ''data: [DONE]''")
      case True
      then show ?thesis by (simp add: scan_loop_terminator)
    next
      case False
      then show ?thesis using Cons
        by (simp add: scan_loop_data[OF True False] split: option.splits list.splits)
    qed
  next
    case False
    then show ?thesis using Cons by (simp add: scan_loop_no_data)
  qed
qed

lemma scan_loop_error_blind:
  "scan_loop (\<lambda>p. map_option (\<lambda>chunk. chunk\<lparr>Error := e p chunk\<rparr>) (um p)) ls full first
   = scan_loop um ls full first"
proof (induction ls arbitrary: full first)
  case Nil
  then show ?case by simp
next
  case (Cons a ls)
  show ?case
  proof (cases "HasPrefix a ''data: ''")
    case True
    show ?thesis
    proof (cases "a = ''data: [DONE]''")
      case True
      then show ?thesis by (simp add: scan_loop_terminator)
    next
      case False
      then show ?thesis using Cons
        by (simp add: scan_loop_data[OF True False] split: option.splits list.splits)
    qed
  next
    case False
    then show ?thesis using Cons by (simp add: scan_loop_no_data)
  qed
qed

section \<open>Properties of the two goroutines\<close>

lemma run_Nil [simp]: "run [] w = w"
  by (simp add: run_def)

lemma run_Cons [simp]: "run (t # sched) w = run sched (step t w)"
  by (simp add: run_def)

lemma run_append: "run (a @ b) w = run b (run a w)"
  by (simp add: run_def)

lemma never_stopped_step: "never_stopped H r w \<Longrightarrow> never_stopped H r (step t w)"
  by (cases t)
     (auto simp: never_stopped_def animating_def main_step_def anim_step_def stop_sender_waiting_def)

lemma never_stopped_run: "never_stopped H r w \<Longrightarrow> never_stopped H r (run sched w)"
  by (induction sched arbitrary: w) (simp_all add: never_stopped_step)

lemma waits_for_stop_never [simp]: "waits_for_stop pc = False"
  by (cases pc) simp_all

lemma stopped_after_handshake:
  assumes "\<not> crashed w" "\<not> parked w" "H \<noteq> []" "animpc w = AnimReturning" "wg w = 1"
    and "conversationHistory w = H" "script w = map Print ds @ [TrySendStop, WgWait, reconcile r]"
  shows "stopped H r w"
  unfolding stopped_def using assms by blast

lemma main_step_stopping:
  assumes "stopping H (map Print ds @ [TrySendStop, WgWait, reconcile r]) w" and "H \<noteq> []"
  shows "stopping H (map Print ds @ [TrySendStop, WgWait, reconcile r]) (main_step w)
         \<or> stopped H r (main_step w)"
proof -
  let ?k = "map Print ds @ [TrySendStop, WgWait, reconcile r]"
  from assms(1) have base: "\<not> crashed w" "wg w = 1" "conversationHistory w = H"
    by (simp_all add: stopping_def)
  from assms(1) consider
      (send) "script w = SendStop # RecvDone # ?k" "animating (animpc w)"
    | (recv) "script w = RecvDone # ?k" "animpc w = AnimGotStop \<or> animpc w = AnimSendDone"
    | (handover) "script w = RecvDone # ?k" "animpc w = AnimParked" "\<not> parked w"
    unfolding stopping_def by blast
  then show ?thesis
  proof cases
    case send
    then have "stopping H ?k (main_step w)" using base
      by (simp add: stopping_def main_step_def)
    then show ?thesis ..
  next
    case recv
    then have "stopping H ?k (main_step w)" using base
      by (auto simp: stopping_def main_step_def)
    then show ?thesis ..
  next
    case handover
    then have "stopped H r (main_step w)" using base assms(2)
      by (intro stopped_after_handshake[where ds = ds]) (simp_all add: main_step_def)
    then show ?thesis ..
  qed
qed

lemma anim_step_stopping:
  assumes "stopping H (map Print ds @ [TrySendStop, WgWait, reconcile r]) w" and "H \<noteq> []"
  shows "stopping H (map Print ds @ [TrySendStop, WgWait, reconcile r]) (anim_step w)
         \<or> stopped H r (anim_step w)"
proof -
  let ?k = "map Print ds @ [TrySendStop, WgWait, reconcile r]"
  from assms(1) have base: "\<not> crashed w" "wg w = 1" "conversationHistory w = H"
    by (simp_all add: stopping_def)
  from assms(1) consider
      (entry) "script w = SendStop # RecvDone # ?k" "animpc w = AnimEntry"
    | (poll) idx where "script w = SendStop # RecvDone # ?k" "animpc w = AnimSelect idx"
    | (got) "script w = RecvDone # ?k" "animpc w = AnimGotStop"
    | (ack) "script w = RecvDone # ?k" "animpc w = AnimSendDone"
    | (handover) "script w = RecvDone # ?k" "animpc w = AnimParked" "\<not> parked w"
    unfolding stopping_def animating_def by blast
  then show ?thesis
  proof cases
    case entry
    then have "stopping H ?k (anim_step w)" using base
      by (simp add: stopping_def anim_step_def animating_def)
    then show ?thesis ..
  next
    case poll
    then have "stopping H ?k (anim_step w)" using base
      by (simp add: stopping_def anim_step_def animating_def stop_sender_waiting_def)
    then show ?thesis ..
  next
    case got
    then have "stopping H ?k (anim_step w)" using base
      by (simp add: stopping_def anim_step_def)
    then show ?thesis ..
  next
    case ack
    show ?thesis
    proof (cases "parked w")
      case True
      with ack have "stopped H r (anim_step w)" using base assms(2)
        by (intro stopped_after_handshake[where ds = ds])
           (simp_all add: anim_step_def done_receiver_waiting_def)
      then show ?thesis ..
    next
      case False
      with ack have "stopping H ?k (anim_step w)" using base
        by (simp add: stopping_def anim_step_def done_receiver_waiting_def)
      then show ?thesis ..
    qed
  next
    case handover
    then have "stopping H ?k (anim_step w)" using base
      by (simp add: stopping_def anim_step_def)
    then show ?thesis ..
  qed
qed



lemma stoppedI:
  assumes "\<not> crashed w" "\<not> parked w" "H \<noteq> []"
    and "animpc w = AnimReturning \<and> wg w = 1 \<or> animpc w = AnimExited \<and> wg w = 0"
    and "conversationHistory w = H \<and>
           (script w = map Print ds @ [TrySendStop, WgWait, reconcile r]
            \<or> script w = [WgWait, reconcile r] \<or> script w = [reconcile r])
         \<or> conversationHistory w = reconciled r H \<and> script w = []"
  shows "stopped H r w"
  unfolding stopped_def using assms by blast

lemma main_step_stopped:
  assumes a: "stopped H r w"
  shows "stopped H r (main_step w)"
proof -
  from a have base: "\<not> crashed w" "\<not> parked w" "H \<noteq> []"
    "animpc w = AnimReturning \<and> wg w = 1 \<or> animpc w = AnimExited \<and> wg w = 0"
    unfolding stopped_def by blast+
  from a consider
      (prints) ds where "script w = map Print ds @ [TrySendStop, WgWait, reconcile r]" "conversationHistory w = H"
    | (wait) "script w = [WgWait, reconcile r]" "conversationHistory w = H"
    | (fin) "script w = [reconcile r]" "conversationHistory w = H"
    | (over) "script w = []"
    unfolding stopped_def by blast
  then show ?thesis
  proof cases
    case prints
    show ?thesis
    proof (cases ds)
      case Nil
      with prints base show ?thesis
        by (intro stoppedI[where ds = "[]"]) (simp_all add: main_step_def)
    next
      case (Cons d ds')
      with prints base show ?thesis
        by (intro stoppedI[where ds = ds']) (simp_all add: main_step_def)
    qed
  next
    case wait
    with base show ?thesis
      by (intro stoppedI[where ds = "[]"]) (auto simp: main_step_def)
  next
    case fin
    with base show ?thesis
      by (cases r; intro stoppedI[where ds = "[]"]) (simp_all add: main_step_def)
  next
    case over
    then have "main_step w = w" by (simp add: main_step_def)
    with a show ?thesis by simp
  qed
qed

lemma anim_step_stopped:
  assumes a: "stopped H r w"
  shows "stopped H r (anim_step w)"
proof -
  from a have base: "\<not> crashed w" "\<not> parked w" "H \<noteq> []"
    unfolding stopped_def by blast+
  from a consider (returning) "animpc w = AnimReturning" "wg w = 1" | (exited) "animpc w = AnimExited"
    unfolding stopped_def by blast
  then show ?thesis
  proof cases
    case returning
    have "anim_step w = w\<lparr>animpc := AnimExited, wg := 0\<rparr>"
      using returning base by (simp add: anim_step_def)
    then show ?thesis using a unfolding stopped_def by simp
  next
    case exited
    then have "anim_step w = w" using base by (simp add: anim_step_def)
    with a show ?thesis by simp
  qed
qed

lemma in_turn_step: "in_turn H ds r w \<Longrightarrow> in_turn H ds r (step t w)"
  using main_step_stopping[of H ds r w] anim_step_stopping[of H ds r w]
    main_step_stopped[of H r w] anim_step_stopped[of H r w]
  unfolding in_turn_def by (cases t) auto

lemma in_turn_run: "in_turn H ds r w \<Longrightarrow> in_turn H ds r (run sched w)"
  by (induction sched arbitrary: w) (simp_all add: in_turn_step)

lemma in_turn_returned:
  assumes "in_turn H ds r w" and "returned w"
  shows "conversationHistory w = reconciled r H"
proof -
  from assms(2) have e: "script w = []" by (simp add: returned_def)
  from assms(1) e have "stopped H r w" by (simp add: in_turn_def stopping_def)
  with e show ?thesis by (simp add: stopped_def)
qed


lemma stopping_progress:
  assumes "stopping H k w"
  shows "\<exists>t. remaining (step t w) < remaining w"
proof -
  from assms have nc: "\<not> crashed w" by (simp add: stopping_def)
  from assms consider
      (entry) "script w = SendStop # RecvDone # k" "animpc w = AnimEntry"
    | (poll) idx where "script w = SendStop # RecvDone # k" "animpc w = AnimSelect idx"
    | (got) "script w = RecvDone # k" "animpc w = AnimGotStop"
    | (ack) "script w = RecvDone # k" "animpc w = AnimSendDone"
    | (handover) "script w = RecvDone # k" "animpc w = AnimParked" "\<not> parked w"
    unfolding stopping_def animating_def by blast
  then show ?thesis
  proof cases
    case entry
    then have "remaining (step AnimG w) < remaining w" using nc
      by (simp add: remaining_def anim_step_def)
    then show ?thesis ..
  next
    case poll
    show ?thesis
    proof (cases "parked w")
      case True
      with poll have "remaining (step AnimG w) < remaining w" using nc
        by (simp add: remaining_def anim_step_def stop_sender_waiting_def)
      then show ?thesis ..
    next
      case False
      with poll have "remaining (step MainG w) < remaining w" using nc
        by (simp add: remaining_def main_step_def)
      then show ?thesis ..
    qed
  next
    case got
    then have "remaining (step AnimG w) < remaining w" using nc
      by (simp add: remaining_def anim_step_def)
    then show ?thesis ..
  next
    case ack
    then have "remaining (step AnimG w) < remaining w" using nc
      by (simp add: remaining_def anim_step_def done_receiver_waiting_def)
    then show ?thesis ..
  next
    case handover
    then have "remaining (step MainG w) < remaining w" using nc
      by (simp add: remaining_def main_step_def)
    then show ?thesis ..
  qed
qed

lemma stopped_progress:
  assumes a: "stopped H r w" and nr: "\<not> returned w"
  shows "\<exists>t. remaining (step t w) < remaining w"
proof -
  from a have base: "\<not> crashed w" "\<not> parked w" "H \<noteq> []"
    unfolding stopped_def by blast+
  from a have "animpc w = AnimReturning \<and> wg w = 1 \<or> animpc w = AnimExited \<and> wg w = 0"
    unfolding stopped_def by blast
  then consider (returning) "animpc w = AnimReturning" | (exited) "animpc w = AnimExited" "wg w = 0"
    by auto
  then show ?thesis
  proof cases
    case returning
    then have "remaining (step AnimG w) < remaining w" using base
      by (simp add: remaining_def anim_step_def)
    then show ?thesis ..
  next
    case exited
    from a have "conversationHistory w = H \<and>
           ((\<exists>ds. script w = map Print ds @ [TrySendStop, WgWait, reconcile r])
            \<or> script w = [WgWait, reconcile r] \<or> script w = [reconcile r])
         \<or> script w = []"
      unfolding stopped_def by blast
    moreover from nr base have "script w \<noteq> []" by (simp add: returned_def)
    ultimately consider
        (prints) ds where "script w = map Print ds @ [TrySendStop, WgWait, reconcile r]"
      | (wait) "script w = [WgWait, reconcile r]"
      | (fin) "script w = [reconcile r]" "conversationHistory w = H"
      by blast
    then have "remaining (step MainG w) < remaining w"
    proof cases
      case prints
      then show ?thesis using base exited by (cases ds) (simp_all add: remaining_def main_step_def)
    next
      case wait
      then show ?thesis using base exited by (simp add: remaining_def main_step_def)
    next
      case fin
      then show ?thesis using base exited by (cases r) (simp_all add: remaining_def main_step_def)
    qed
    then show ?thesis ..
  qed
qed

lemma in_turn_completes: "in_turn H ds r w \<Longrightarrow> \<exists>sched. returned (run sched w)"
proof (induction "remaining w" arbitrary: w rule: less_induct)
  case less
  show ?case
  proof (cases "returned w")
    case True
    then have "returned (run [] w)" by simp
    then show ?thesis ..
  next
    case False
    from less.prems False have "\<exists>t. remaining (step t w) < remaining w"
      using stopping_progress stopped_progress unfolding in_turn_def by blast
    then obtain t where t: "remaining (step t w) < remaining w" ..
    from less.hyps[OF t in_turn_step[OF less.prems]]
    obtain sched where "returned (run sched (step t w))" ..
    then have "returned (run (t # sched) w)" by simp
    then show ?thesis ..
  qed
qed

section \<open>Properties of the consumer\<close>

lemma not_data_frame: "l = [] \<or> HasPrefix l '': '' \<Longrightarrow> \<not> HasPrefix l ''data: ''"
  by (auto simp: HasPrefix_def prefix_def)

lemma scan_loop_blank_comment:
  "\<forall>l\<in>set ls. l = [] \<or> HasPrefix l '': '' \<Longrightarrow>
   scan_loop um (ls @ rest) full first = scan_loop um rest full first"
  by (induction ls) (simp_all add: scan_loop_no_data not_data_frame)

lemma data_frame_simps [simp]:
  "HasPrefix (data_frame p) ''data: ''"
  "TrimPrefix (data_frame p) ''data: '' = p"
  "(data_frame p = ''data: [DONE]'') = (p = ''[DONE]'')"
  by (simp_all add: data_frame_def HasPrefix_def TrimPrefix_def)

lemma scan_loop_events:
  "\<exists>ds. (\<forall>d\<in>set ds. d \<noteq> []) \<and>
     fst (scan_loop um ls full first) = (if first \<and> ds \<noteq> [] then [StopAnimation] else []) @ map Emit ds"
proof (induction ls arbitrary: full first)
  case Nil
  have "(\<forall>d\<in>set []. d \<noteq> ([]::string)) \<and>
     fst (scan_loop um [] full first) = (if first \<and> ([]::string list) \<noteq> [] then [StopAnimation] else []) @ map Emit []"
    by simp
  then show ?case by blast
next
  case (Cons l ls)
  show ?case
  proof (cases "HasPrefix l ''data: '' \<and> l \<noteq> ''data: [DONE]''")
    case False
    then consider "l = ''data: [DONE]''" | "\<not> HasPrefix l ''data: ''" by blast
    then show ?thesis
    proof cases
      case 1
      have "(\<forall>d\<in>set []. d \<noteq> ([]::string)) \<and>
        fst (scan_loop um (l # ls) full first) = (if first \<and> ([]::string list) \<noteq> [] then [StopAnimation] else []) @ map Emit []"
        using 1 by (simp add: scan_loop_terminator)
      then show ?thesis by blast
    next
      case 2
      then show ?thesis using Cons.IH[of full first] by (simp add: scan_loop_no_data)
    qed
  next
    case True
    then have d: "HasPrefix l ''data: ''" and nt: "l \<noteq> ''data: [DONE]''" by simp_all
    note eq = scan_loop_data[OF d nt, of um ls full first]
    show ?thesis
    proof (cases "um (TrimPrefix l ''data: '')")
      case None
      then show ?thesis using Cons.IH[of full first] eq by simp
    next
      case (Some c)
      show ?thesis
      proof (cases "Choices c")
        case Nil
        have "(\<forall>d\<in>set []. d \<noteq> ([]::string)) \<and>
          fst (scan_loop um (l # ls) full first) = (if first \<and> ([]::string list) \<noteq> [] then [StopAnimation] else []) @ map Emit []"
          using Some Nil eq by simp
        then show ?thesis by blast
      next
        case (Cons ch chs)
        show ?thesis
        proof (cases "Content (Delta ch) = []")
          case True
          then show ?thesis using Cons.IH[of full first] eq Some Cons by simp
        next
          case False
          from Cons.IH[of "full @ Content (Delta ch)" False]
          obtain ds where ds: "\<forall>d\<in>set ds. d \<noteq> []"
            "fst (scan_loop um ls (full @ Content (Delta ch)) False) = map Emit ds" by auto
          have "(\<forall>d\<in>set (Content (Delta ch) # ds). d \<noteq> []) \<and>
            fst (scan_loop um (l # ls) full first) =
              (if first \<and> Content (Delta ch) # ds \<noteq> [] then [StopAnimation] else []) @ map Emit (Content (Delta ch) # ds)"
            using ds False eq Some Cons by simp
          then show ?thesis by blast
        qed
      qed
    qed
  qed
qed

lemma sendStreamRequest_events:
  "\<exists>ds. (\<forall>d\<in>set ds. d \<noteq> []) \<and>
     fst (sendStreamRequest um net messages) = (if ds = [] then [] else StopAnimation # map Emit ds)"
proof (cases "net messages")
  case (Response status lines scanErr)
  show ?thesis
  proof (cases "status = StatusOK")
    case True
    from scan_loop_events[of um lines "[]" True]
    obtain ds where ds: "\<forall>d\<in>set ds. d \<noteq> []"
      "fst (scan_loop um lines [] True) = (if ds \<noteq> [] then [StopAnimation] else []) @ map Emit ds"
      by auto
    have "fst (sendStreamRequest um net messages) = fst (scan_loop um lines [] True)"
      using Response True by (simp add: sendStreamRequest_def split: prod.splits option.splits)
    with ds have "(\<forall>d\<in>set ds. d \<noteq> []) \<and>
       fst (sendStreamRequest um net messages) = (if ds = [] then [] else StopAnimation # map Emit ds)"
      by simp
    then show ?thesis by blast
  next
    case False
    with Response have "(\<forall>d\<in>set []. d \<noteq> ([]::string)) \<and>
       fst (sendStreamRequest um net messages) = (if ([]::string list) = [] then [] else StopAnimation # map Emit [])"
      by (simp add: sendStreamRequest_def)
    then show ?thesis by blast
  qed
qed (force simp: sendStreamRequest_def)+

text \<open>What a run of the consumer that returns looks like.\<close>

lemma sendStreamRequest_returns:
  assumes "sendStreamRequest um net messages = (evs, Returns r)"
  shows "(\<exists>lines scanErr. net messages = Response StatusOK lines scanErr \<and> has_choices um lines \<and>
            evs = (if spec_deltas um lines = [] then [] else StopAnimation # map Emit (spec_deltas um lines)) \<and>
            r = (if scanErr then Inl ReadFailed
                 else if spec_deltas um lines = [] then Inl EmptyAnswer
                 else Inr (concat (spec_deltas um lines))))
         \<or> evs = [] \<and> (\<exists>err. r = Inl err \<and> err \<noteq> ReadFailed \<and> err \<noteq> EmptyAnswer)"
proof (cases "net messages")
  case (Response status lines scanErr)
  show ?thesis
  proof (cases "status = StatusOK")
    case True
    have hc: "has_choices um lines"
    proof (rule ccontr)
      assume "\<not> has_choices um lines"
      then have "snd (scan_loop um lines [] True) = None" by (rule scan_loop_None)
      then show False using assms Response True
        by (simp add: sendStreamRequest_def split: prod.splits option.splits)
    qed
    have ne: "concat (spec_deltas um lines) = [] \<longleftrightarrow> spec_deltas um lines = []"
      using spec_deltas_nonempty[of _ um lines] by (cases "spec_deltas um lines") auto
    show ?thesis using assms Response True hc
      by (auto simp: sendStreamRequest_def scan_loop_spec[OF hc] ne simp del: concat_eq_Nil_conv)
  next
    case False
    then show ?thesis using assms Response by (auto simp: sendStreamRequest_def)
  qed
qed (use assms in \<open>auto simp: sendStreamRequest_def\<close>)


lemma scan_loop_unparsable:
  assumes "um p = None" and "p \<noteq> ''[DONE]''"
  shows "scan_loop um ((data_frame p) # rest) full first = scan_loop um rest full first"
proof -
  have d: "HasPrefix (data_frame p) ''data: ''" by simp
  have nt: "data_frame p \<noteq> ''data: [DONE]''" using assms(2) by simp
  show ?thesis using assms(1) scan_loop_data[OF d nt, of um rest full first]
    by simp
qed

lemma scan_loop_empty_delta:
  assumes "um p = Some c" and "Choices c = ch # chs" and "Content (Delta ch) = []" and "p \<noteq> ''[DONE]''"
  shows "scan_loop um ((data_frame p) # rest) full first = scan_loop um rest full first"
proof -
  have d: "HasPrefix (data_frame p) ''data: ''" by simp
  have nt: "data_frame p \<noteq> ''data: [DONE]''" using assms(4) by simp
  show ?thesis using assms(1-3) scan_loop_data[OF d nt, of um rest full first]
    by simp
qed

section \<open>The claims about the consumer\<close>

text \<open>
  Claim C1 says that a data frame whose payload parses to a chunk with an empty choice list
  does not crash the consumer. The code indexes \<open>streamResp.Choices[0]\<close> (line 160)
  without looking at the length of the list: whenever such a frame comes before the
  terminator of a stream with status 200, \<open>sendStreamRequest\<close> ends in the run-time panic
  instead of returning.
\<close>

theorem empty_choice_list_panics:
  assumes "net messages = Response StatusOK lines scanErr"
    and "l \<in> set (before_terminator lines)" and "HasPrefix l ''data: ''"
    and "um (TrimPrefix l ''data: '') = Some c" and "Choices c = []"
  shows "snd (sendStreamRequest um net messages) = Panics"
proof -
  from assms(2-5) have "\<not> has_choices um lines"
    unfolding has_choices_def by force
  then have "snd (scan_loop um lines [] True) = None" by (rule scan_loop_None)
  with assms(1) show ?thesis
    by (cases "scan_loop um lines [] True") (simp add: sendStreamRequest_def)
qed

theorem empty_choice_list_panics_witness:
  \<open>answers 200 [''data: {"choices":[]}'', ''data: [DONE]''] [] =
      Response StatusOK [''data: {"choices":[]}'', ''data: [DONE]''] False
   \<and> ''data: {"choices":[]}'' \<in> set (before_terminator [''data: {"choices":[]}'', ''data: [DONE]''])
   \<and> HasPrefix ''data: {"choices":[]}'' ''data: ''
   \<and> sample_decoder (TrimPrefix ''data: {"choices":[]}'' ''data: '') = Some ((delta_chunk [])\<lparr>Choices := []\<rparr>)
   \<and> Choices ((delta_chunk [])\<lparr>Choices := []\<rparr>) = []
   \<and> snd (sendStreamRequest sample_decoder (answers 200 [''data: {"choices":[]}'', ''data: [DONE]'']) []) = Panics\<close>
proof -
  have h1: \<open>answers 200 [''data: {"choices":[]}'', ''data: [DONE]''] [] =
      Response StatusOK [''data: {"choices":[]}'', ''data: [DONE]''] False\<close>
    by (simp add: answers_def StatusOK_def)
  have h2: \<open>''data: {"choices":[]}'' \<in> set (before_terminator [''data: {"choices":[]}'', ''data: [DONE]''])\<close>
    by (simp add: before_terminator_def)
  have h3: \<open>HasPrefix ''data: {"choices":[]}'' ''data: ''\<close>
    by (simp add: HasPrefix_def)
  have h4: \<open>sample_decoder (TrimPrefix ''data: {"choices":[]}'' ''data: '') = Some ((delta_chunk [])\<lparr>Choices := []\<rparr>)\<close>
    by (simp add: sample_decoder_def TrimPrefix_def HasPrefix_def)
  have h5: "Choices ((delta_chunk [])\<lparr>Choices := []\<rparr>) = []"
    by simp
  from empty_choice_list_panics[where net = \<open>answers 200 [''data: {"choices":[]}'', ''data: [DONE]'']\<close>
      and messages = "[]" and um = sample_decoder, OF h1 h2 h3 h4 h5] h1 h2 h3 h4 h5
  show ?thesis by blast
qed

text \<open>
  Claim C4: a stream that ends without a read error and has accumulated no reply text
  makes the consumer return the empty-answer failure. This holds for every stream whose
  chunks have a choice and whose deltas are all empty, in particular for blank lines and
  comment frames followed by the terminator; and on no input at all does the consumer
  return an empty text as a success.
\<close>

theorem empty_reply_is_failure:
  "(net messages = Response StatusOK lines False \<and> has_choices um lines \<and> spec_deltas um lines = []
      \<longrightarrow> sendStreamRequest um net messages = ([], Returns (Inl EmptyAnswer)))
   \<and> (net messages = Response StatusOK (lines @ [''data: [DONE]'']) False
        \<and> (\<forall>l\<in>set lines. l = [] \<or> HasPrefix l '': '')
      \<longrightarrow> sendStreamRequest um net messages = ([], Returns (Inl EmptyAnswer)))
   \<and> snd (sendStreamRequest um net messages) \<noteq> Returns (Inr [])"
proof (intro conjI impI)
  assume "net messages = Response StatusOK lines False \<and> has_choices um lines \<and> spec_deltas um lines = []"
  then show "sendStreamRequest um net messages = ([], Returns (Inl EmptyAnswer))"
    by (simp add: sendStreamRequest_def scan_loop_spec)
next
  assume a: "net messages = Response StatusOK (lines @ [''data: [DONE]'']) False
        \<and> (\<forall>l\<in>set lines. l = [] \<or> HasPrefix l '': '')"
  then have "scan_loop um (lines @ [''data: [DONE]'']) [] True = ([], Some [])"
    by (simp add: scan_loop_blank_comment scan_loop_terminator)
  with a show "sendStreamRequest um net messages = ([], Returns (Inl EmptyAnswer))"
    by (simp add: sendStreamRequest_def)
next
  show "snd (sendStreamRequest um net messages) \<noteq> Returns (Inr [])"
  proof
    assume "snd (sendStreamRequest um net messages) = Returns (Inr [])"
    then have "sendStreamRequest um net messages = (fst (sendStreamRequest um net messages), Returns (Inr []))"
      by (metis prod.collapse)
    from sendStreamRequest_returns[OF this] show False
      using spec_deltas_nonempty[of _ um] by (auto split: if_splits)
  qed
qed


theorem empty_reply_is_failure_witness:
  \<open>(answers 200 [''data: {"choices":[{"delta":{"content":""}}]}'', ''data: [DONE]''] [] =
       Response StatusOK [''data: {"choices":[{"delta":{"content":""}}]}'', ''data: [DONE]''] False
     \<and> has_choices sample_decoder [''data: {"choices":[{"delta":{"content":""}}]}'', ''data: [DONE]'']
     \<and> spec_deltas sample_decoder [''data: {"choices":[{"delta":{"content":""}}]}'', ''data: [DONE]''] = []
     \<and> sendStreamRequest sample_decoder
          (answers 200 [''data: {"choices":[{"delta":{"content":""}}]}'', ''data: [DONE]'']) []
         = ([], Returns (Inl EmptyAnswer)))
   \<and> (answers 200 ([[], '': keep-alive'', []] @ [''data: [DONE]'']) [] =
       Response StatusOK ([[], '': keep-alive'', []] @ [''data: [DONE]'']) False
     \<and> list_all (\<lambda>l. l = [] \<or> HasPrefix l '': '') [[], '': keep-alive'', []]
     \<and> sendStreamRequest sample_decoder (answers 200 ([[], '': keep-alive'', []] @ [''data: [DONE]''])) []
         = ([], Returns (Inl EmptyAnswer)))\<close>
proof -
  let ?L1 = \<open>[''data: {"choices":[{"delta":{"content":""}}]}'', ''data: [DONE]'']\<close>
  let ?L2 = \<open>[[], '': keep-alive'', []]\<close>
  have a1: "answers 200 ?L1 [] = Response StatusOK ?L1 False"
    by (simp add: answers_def StatusOK_def)
  have a2: "has_choices sample_decoder ?L1"
    by (simp add: has_choices_def before_terminator_def HasPrefix_def TrimPrefix_def
          sample_decoder_def delta_chunk_def)
  have a3: "spec_deltas sample_decoder ?L1 = []"
    by (simp add: spec_deltas_def frame_delta_def before_terminator_def HasPrefix_def TrimPrefix_def
          sample_decoder_def delta_chunk_def)
  have b1: "answers 200 (?L2 @ [''data: [DONE]'']) [] = Response StatusOK (?L2 @ [''data: [DONE]'']) False"
    by (simp add: answers_def StatusOK_def)
  have b2: "\<forall>l\<in>set ?L2. l = [] \<or> HasPrefix l '': ''"
    by (simp add: HasPrefix_def)
  from empty_reply_is_failure[where net = "answers 200 ?L1" and messages = "[]" and lines = ?L1
      and um = sample_decoder] a1 a2 a3
  have c1: "sendStreamRequest sample_decoder (answers 200 ?L1) [] = ([], Returns (Inl EmptyAnswer))"
    by blast
  from empty_reply_is_failure[where net = "answers 200 (?L2 @ [''data: [DONE]''])" and messages = "[]"
      and lines = ?L2 and um = sample_decoder] b1 b2
  have c2: "sendStreamRequest sample_decoder (answers 200 (?L2 @ [''data: [DONE]''])) []
      = ([], Returns (Inl EmptyAnswer))"
    by blast
  from b2 have b3: "list_all (\<lambda>l. l = [] \<or> HasPrefix l '': '') ?L2"
    by (simp add: list_all_iff)
  from a1 a2 a3 b1 b3 c1 c2 show ?thesis by blast
qed

text \<open>
  Claim C5: when the consumer returns a reply text, it is the concatenation, in order, of
  the non-empty deltas of the data frames before the terminator that parse (and these are
  what it has printed, after a single stop of the animation); a data frame that does not
  parse can be taken out of the stream without changing anything; a frame with delta
  \<open>Hi\<close> and the terminator give \<open>Hi\<close>; deltas \<open>A\<close>, empty and \<open>B\<close> give \<open>AB\<close>.
\<close>

theorem reply_text_is_concatenation_of_deltas:
  "(sendStreamRequest um net messages = (evs, Returns (Inr fullContent)) \<longrightarrow>
      (\<exists>lines. net messages = Response StatusOK lines False \<and> has_choices um lines
         \<and> fullContent = concat (spec_deltas um lines)
         \<and> evs = StopAnimation # map Emit (spec_deltas um lines)))
   \<and> (um p = None \<and> p \<noteq> ''[DONE]'' \<longrightarrow>
        scan_loop um (pre @ (data_frame p) # post) full first = scan_loop um (pre @ post) full first)
   \<and> (frame_delta um (data_frame p) = [''Hi''] \<and> p \<noteq> ''[DONE]''
        \<and> net messages = Response StatusOK [data_frame p, ''data: [DONE]''] False \<longrightarrow>
        sendStreamRequest um net messages = ([StopAnimation, Emit ''Hi''], Returns (Inr ''Hi'')))
   \<and> (frame_delta um (data_frame a) = [''A''] \<and> frame_delta um (data_frame e) = [[]]
        \<and> frame_delta um (data_frame b) = [''B'']
        \<and> a \<noteq> ''[DONE]'' \<and> e \<noteq> ''[DONE]'' \<and> b \<noteq> ''[DONE]''
        \<and> net messages =
            Response StatusOK [data_frame a, data_frame e, data_frame b, ''data: [DONE]''] False \<longrightarrow>
        sendStreamRequest um net messages =
          ([StopAnimation, Emit ''A'', Emit ''B''], Returns (Inr ''AB'')))"
proof (intro conjI impI)
  assume "sendStreamRequest um net messages = (evs, Returns (Inr fullContent))"
  from sendStreamRequest_returns[OF this]
  show "\<exists>lines. net messages = Response StatusOK lines False \<and> has_choices um lines
         \<and> fullContent = concat (spec_deltas um lines)
         \<and> evs = StopAnimation # map Emit (spec_deltas um lines)"
    by (auto split: if_splits)
next
  assume a: "um p = None \<and> p \<noteq> ''[DONE]''"
  show "scan_loop um (pre @ (data_frame p) # post) full first = scan_loop um (pre @ post) full first"
    using a by (intro scan_loop_skip scan_loop_unparsable) simp_all
next
  assume a: "frame_delta um (data_frame p) = [''Hi''] \<and> p \<noteq> ''[DONE]''
        \<and> net messages = Response StatusOK [data_frame p, ''data: [DONE]''] False"
  let ?ls = "[data_frame p, ''data: [DONE]'']"
  from a have hc: "has_choices um ?ls"
    by (auto simp: has_choices_def before_terminator_def frame_delta_def split: option.splits list.splits)
  from a have sd: "spec_deltas um ?ls = [''Hi'']"
    by (simp add: spec_deltas_def before_terminator_def)
  from a show "sendStreamRequest um net messages = ([StopAnimation, Emit ''Hi''], Returns (Inr ''Hi''))"
    by (simp add: sendStreamRequest_def scan_loop_spec[OF hc] sd)
next
  assume a: "frame_delta um (data_frame a) = [''A''] \<and> frame_delta um (data_frame e) = [[]]
        \<and> frame_delta um (data_frame b) = [''B'']
        \<and> a \<noteq> ''[DONE]'' \<and> e \<noteq> ''[DONE]'' \<and> b \<noteq> ''[DONE]''
        \<and> net messages =
            Response StatusOK [data_frame a, data_frame e, data_frame b, ''data: [DONE]''] False"
  let ?ls = "[data_frame a, data_frame e, data_frame b, ''data: [DONE]'']"
  from a have hc: "has_choices um ?ls"
    by (auto simp: has_choices_def before_terminator_def frame_delta_def split: option.splits list.splits)
  from a have sd: "spec_deltas um ?ls = [''A'', ''B'']"
    by (simp add: spec_deltas_def before_terminator_def)
  from a show "sendStreamRequest um net messages =
          ([StopAnimation, Emit ''A'', Emit ''B''], Returns (Inr ''AB''))"
    by (simp add: sendStreamRequest_def scan_loop_spec[OF hc] sd)
qed

theorem reply_text_is_concatenation_of_deltas_witness:
  \<open>sendStreamRequest sample_decoder
      (answers 200 [[], data_frame ''{"choices":[{"delta":{"content":"Hi"}}]}'', ''data: [DONE]'']) []
      = ([StopAnimation, Emit ''Hi''], Returns (Inr ''Hi''))
   \<and> ''Hi'' = concat (spec_deltas sample_decoder
        [[], data_frame ''{"choices":[{"delta":{"content":"Hi"}}]}'', ''data: [DONE]''])
   \<and> sample_decoder ''not json'' = None
   \<and> scan_loop sample_decoder
        ([data_frame ''{"choices":[{"delta":{"content":"A"}}]}''] @ data_frame ''not json'' #
         [data_frame ''{"choices":[{"delta":{"content":"B"}}]}'']) [] True
      = scan_loop sample_decoder
        ([data_frame ''{"choices":[{"delta":{"content":"A"}}]}''] @
         [data_frame ''{"choices":[{"delta":{"content":"B"}}]}'']) [] True
   \<and> frame_delta sample_decoder (data_frame ''{"choices":[{"delta":{"content":"Hi"}}]}'') = [''Hi'']
   \<and> sendStreamRequest sample_decoder
        (answers 200 [data_frame ''{"choices":[{"delta":{"content":"Hi"}}]}'', ''data: [DONE]'']) []
      = ([StopAnimation, Emit ''Hi''], Returns (Inr ''Hi''))
   \<and> frame_delta sample_decoder (data_frame ''{"choices":[{"delta":{"content":"A"}}]}'') = [''A'']
   \<and> frame_delta sample_decoder (data_frame ''{"choices":[{"delta":{"content":""}}]}'') = [[]]
   \<and> frame_delta sample_decoder (data_frame ''{"choices":[{"delta":{"content":"B"}}]}'') = [''B'']
   \<and> sendStreamRequest sample_decoder
        (answers 200 [data_frame ''{"choices":[{"delta":{"content":"A"}}]}'',
                      data_frame ''{"choices":[{"delta":{"content":""}}]}'',
                      data_frame ''{"choices":[{"delta":{"content":"B"}}]}'', ''data: [DONE]'']) []
      = ([StopAnimation, Emit ''A'', Emit ''B''], Returns (Inr ''AB''))\<close>
proof -
  let ?hi = \<open>''{"choices":[{"delta":{"content":"Hi"}}]}''\<close>
  let ?a = \<open>''{"choices":[{"delta":{"content":"A"}}]}''\<close>
  let ?e = \<open>''{"choices":[{"delta":{"content":""}}]}''\<close>
  let ?b = \<open>''{"choices":[{"delta":{"content":"B"}}]}''\<close>
  let ?T = "''data: [DONE]''"
  have fhi: "frame_delta sample_decoder (data_frame ?hi) = [''Hi'']"
    and fa: "frame_delta sample_decoder (data_frame ?a) = [''A'']"
    and fe: "frame_delta sample_decoder (data_frame ?e) = [[]]"
    and fb: "frame_delta sample_decoder (data_frame ?b) = [''B'']"
    by (simp_all add: frame_delta_def sample_decoder_def delta_chunk_def)
  have nj: "sample_decoder ''not json'' = None"
    by (simp add: sample_decoder_def)
  have n1: "answers 200 [data_frame ?hi, ?T] [] = Response StatusOK [data_frame ?hi, ?T] False"
    and n2: "answers 200 [data_frame ?a, data_frame ?e, data_frame ?b, ?T] []
      = Response StatusOK [data_frame ?a, data_frame ?e, data_frame ?b, ?T] False"
    by (simp_all add: answers_def StatusOK_def)
  note T = reply_text_is_concatenation_of_deltas[where um = sample_decoder]
  from T[where net = "answers 200 [data_frame ?hi, ?T]" and messages = "[]" and p = ?hi] fhi n1
  have r1: "sendStreamRequest sample_decoder (answers 200 [data_frame ?hi, ?T]) []
      = ([StopAnimation, Emit ''Hi''], Returns (Inr ''Hi''))"
    by simp
  from T[where net = "answers 200 [data_frame ?a, data_frame ?e, data_frame ?b, ?T]"
      and messages = "[]" and a = ?a and e = ?e and b = ?b] fa fe fb n2
  have r2: "sendStreamRequest sample_decoder (answers 200 [data_frame ?a, data_frame ?e, data_frame ?b, ?T]) []
      = ([StopAnimation, Emit ''A'', Emit ''B''], Returns (Inr ''AB''))"
    by simp
  from T[where p = "''not json''" and pre = "[data_frame ?a]" and post = "[data_frame ?b]"
      and full = "[]" and first = True] nj
  have r3: "scan_loop sample_decoder ([data_frame ?a] @ data_frame ''not json'' # [data_frame ?b]) [] True
      = scan_loop sample_decoder ([data_frame ?a] @ [data_frame ?b]) [] True"
    by simp
  have r0: "sendStreamRequest sample_decoder (answers 200 [[], data_frame ?hi, ?T]) []
      = ([StopAnimation, Emit ''Hi''], Returns (Inr ''Hi''))"
    by (simp add: sendStreamRequest_def answers_def StatusOK_def scan_loop_no_data scan_loop_data
          scan_loop_terminator HasPrefix_def TrimPrefix_def data_frame_def sample_decoder_def delta_chunk_def)
  from T[where net = "answers 200 [[], data_frame ?hi, ?T]" and messages = "[]"
      and evs = "[StopAnimation, Emit ''Hi'']" and fullContent = "''Hi''"] r0
  obtain lines where l: "answers 200 [[], data_frame ?hi, ?T] [] = Response StatusOK lines False"
     "''Hi'' = concat (spec_deltas sample_decoder lines)"
    by blast
  from l(1) have "lines = [[], data_frame ?hi, ?T]" by (simp add: answers_def)
  with l(2) have r4: "''Hi'' = concat (spec_deltas sample_decoder [[], data_frame ?hi, ?T])" by simp
  from r0 r4 nj r3 fhi r1 fa fe fb r2 show ?thesis by blast
qed

text \<open>
  Claim C10: the consumer never looks at the error object of a chunk. Replacing the error
  field of every decoded chunk by anything else changes neither the events nor the result
  of the consumer; and a chunk that carries an error and an empty delta can be taken out
  of the stream without changing anything, so that it neither contributes text nor makes
  the request fail.
\<close>

theorem in_stream_error_is_ignored:
  "sendStreamRequest (\<lambda>p. map_option (\<lambda>c. c\<lparr>Error := e p c\<rparr>) (um p)) net messages
     = sendStreamRequest um net messages
   \<and> (um p = Some c \<and> Error c = Some err \<and> frame_delta um (data_frame p) = [[]] \<and> p \<noteq> ''[DONE]'' \<longrightarrow>
        scan_loop um (pre @ data_frame p # post) full first = scan_loop um (pre @ post) full first)"
proof (intro conjI impI)
  show "sendStreamRequest (\<lambda>p. map_option (\<lambda>c. c\<lparr>Error := e p c\<rparr>) (um p)) net messages
     = sendStreamRequest um net messages"
    by (simp add: sendStreamRequest_def scan_loop_error_blind split: reply.splits)
next
  assume a: "um p = Some c \<and> Error c = Some err \<and> frame_delta um (data_frame p) = [[]] \<and> p \<noteq> ''[DONE]''"
  then obtain ch chs where "Choices c = ch # chs" "Content (Delta ch) = []"
    by (auto simp: frame_delta_def split: list.splits)
  with a show "scan_loop um (pre @ data_frame p # post) full first = scan_loop um (pre @ post) full first"
    by (intro scan_loop_skip scan_loop_empty_delta) simp_all
qed

theorem in_stream_error_is_ignored_witness:
  \<open>sample_decoder ''{"choices":[{"delta":{"content":""}}],"error":{"code":"429","message":"busy"}}''
      = Some ((delta_chunk [])\<lparr>Error := Some \<lparr>Code = ''429'', Message = ''busy''\<rparr>\<rparr>)
   \<and> Error ((delta_chunk [])\<lparr>Error := Some \<lparr>Code = ''429'', Message = ''busy''\<rparr>\<rparr>)
      = Some \<lparr>Code = ''429'', Message = ''busy''\<rparr>
   \<and> frame_delta sample_decoder
        (data_frame ''{"choices":[{"delta":{"content":""}}],"error":{"code":"429","message":"busy"}}'') = [[]]
   \<and> scan_loop sample_decoder
        ([data_frame ''{"choices":[{"delta":{"content":"A"}}]}''] @
         data_frame ''{"choices":[{"delta":{"content":""}}],"error":{"code":"429","message":"busy"}}'' #
         [''data: [DONE]'']) [] True
      = scan_loop sample_decoder
        ([data_frame ''{"choices":[{"delta":{"content":"A"}}]}''] @ [''data: [DONE]'']) [] True\<close>
proof -
  let ?p = \<open>''{"choices":[{"delta":{"content":""}}],"error":{"code":"429","message":"busy"}}''\<close>
  let ?a = \<open>''{"choices":[{"delta":{"content":"A"}}]}''\<close>
  let ?c = "(delta_chunk [])\<lparr>Error := Some \<lparr>Code = ''429'', Message = ''busy''\<rparr>\<rparr>"
  have h1: "sample_decoder ?p = Some ?c"
    by (simp add: sample_decoder_def)
  have h2: "Error ?c = Some \<lparr>Code = ''429'', Message = ''busy''\<rparr>"
    by simp
  have h3: "frame_delta sample_decoder (data_frame ?p) = [[]]"
    by (simp add: frame_delta_def sample_decoder_def delta_chunk_def)
  from in_stream_error_is_ignored[where um = sample_decoder and p = ?p and c = ?c
      and pre = "[data_frame ?a]" and post = "[''data: [DONE]'']" and full = "[]" and first = True] h1 h2 h3
  have "scan_loop sample_decoder ([data_frame ?a] @ data_frame ?p # [''data: [DONE]'']) [] True
      = scan_loop sample_decoder ([data_frame ?a] @ [''data: [DONE]'']) [] True"
    by simp
  with h1 h2 h3 show ?thesis by blast
qed

section \<open>Properties of the input trimming\<close>

declare TrimLeft.simps [simp del] TrimRight.simps [simp del]

lemma whiteSpace_nonempty: "e \<in> set whiteSpace \<Longrightarrow> e \<noteq> []"
  by (auto simp: whiteSpace_def)

lemma find_SomeD: "find P xs = Some x \<Longrightarrow> x \<in> set xs \<and> P x"
  by (auto simp: find_Some_iff)

lemma leading_space_0: "leading_space s = 0 \<longleftrightarrow> (\<forall>e\<in>set whiteSpace. \<not> prefix e s)"
proof (cases "find (\<lambda>e. prefix e s) whiteSpace")
  case None
  then have "\<forall>e\<in>set whiteSpace. \<not> prefix e s" by (simp add: find_None_iff)
  with None show ?thesis by (simp add: leading_space_def)
next
  case (Some e)
  from find_SomeD[OF Some] have "e \<in> set whiteSpace" "prefix e s" by simp_all
  moreover from this have "e \<noteq> []" by (simp add: whiteSpace_nonempty)
  ultimately show ?thesis using Some by (auto simp: leading_space_def)
qed

lemma leading_space_pos:
  assumes "leading_space s \<noteq> 0"
  shows "\<exists>e\<in>set whiteSpace. s = e @ drop (leading_space s) s"
proof (cases "find (\<lambda>e. prefix e s) whiteSpace")
  case None
  with assms show ?thesis by (simp add: leading_space_def)
next
  case (Some e)
  from find_SomeD[OF Some] have "e \<in> set whiteSpace" "prefix e s" by simp_all
  moreover have "leading_space s = length e" using Some by (simp add: leading_space_def)
  ultimately show ?thesis by (auto simp: prefix_def)
qed

lemma trailing_space_0: "trailing_space s = 0 \<longleftrightarrow> (\<forall>e\<in>set whiteSpace. \<not> suffix e s)"
proof (cases "find (\<lambda>e. suffix e s) whiteSpace")
  case None
  then have "\<forall>e\<in>set whiteSpace. \<not> suffix e s" by (simp add: find_None_iff)
  with None show ?thesis by (simp add: trailing_space_def)
next
  case (Some e)
  from find_SomeD[OF Some] have "e \<in> set whiteSpace" "suffix e s" by simp_all
  moreover from this have "e \<noteq> []" by (simp add: whiteSpace_nonempty)
  ultimately show ?thesis using Some by (auto simp: trailing_space_def)
qed

lemma trailing_space_pos:
  assumes "trailing_space s \<noteq> 0"
  shows "\<exists>e\<in>set whiteSpace. s = take (length s - trailing_space s) s @ e"
proof (cases "find (\<lambda>e. suffix e s) whiteSpace")
  case None
  with assms show ?thesis by (simp add: trailing_space_def)
next
  case (Some e)
  from find_SomeD[OF Some] have "e \<in> set whiteSpace" "suffix e s" by simp_all
  moreover have "trailing_space s = length e" using Some by (simp add: trailing_space_def)
  ultimately show ?thesis by (auto simp: suffix_def)
qed

lemma blank_Nil: "blank []"
  unfolding blank_def by (rule exI[of _ "[]"]) simp

lemma blank_Cons: "e \<in> set whiteSpace \<Longrightarrow> blank s \<Longrightarrow> blank (e @ s)"
  unfolding blank_def
proof -
  assume e: "e \<in> set whiteSpace" and "\<exists>ws. set ws \<subseteq> set whiteSpace \<and> s = concat ws"
  then obtain ws where "set ws \<subseteq> set whiteSpace" "s = concat ws" by blast
  with e have "set (e # ws) \<subseteq> set whiteSpace \<and> e @ s = concat (e # ws)" by simp
  then show "\<exists>ws. set ws \<subseteq> set whiteSpace \<and> e @ s = concat ws" by blast
qed

lemma blank_snoc: "blank s \<Longrightarrow> e \<in> set whiteSpace \<Longrightarrow> blank (s @ e)"
  unfolding blank_def
proof -
  assume e: "e \<in> set whiteSpace" and "\<exists>ws. set ws \<subseteq> set whiteSpace \<and> s = concat ws"
  then obtain ws where "set ws \<subseteq> set whiteSpace" "s = concat ws" by blast
  with e have "set (ws @ [e]) \<subseteq> set whiteSpace \<and> s @ e = concat (ws @ [e])" by simp
  then show "\<exists>ws. set ws \<subseteq> set whiteSpace \<and> s @ e = concat ws" by blast
qed

lemma TrimLeft_decomp: "\<exists>a. blank a \<and> s = a @ TrimLeft s \<and> leading_space (TrimLeft s) = 0"
proof (induction s rule: TrimLeft.induct)
  case (1 s)
  show ?case
  proof (cases "leading_space s = 0 \<or> s = []")
    case True
    then have "TrimLeft s = s" by (subst TrimLeft.simps) simp
    moreover from True have "leading_space s = 0"
      by (auto simp: leading_space_0 whiteSpace_nonempty)
    ultimately have "blank [] \<and> s = [] @ TrimLeft s \<and> leading_space (TrimLeft s) = 0"
      by (simp add: blank_Nil)
    then show ?thesis by blast
  next
    case False
    then have eq: "TrimLeft s = TrimLeft (drop (leading_space s) s)"
      by (subst TrimLeft.simps) simp
    from False obtain e where e: "e \<in> set whiteSpace" "s = e @ drop (leading_space s) s"
      using leading_space_pos by blast
    from 1[OF False] obtain a where a: "blank a"
      "drop (leading_space s) s = a @ TrimLeft (drop (leading_space s) s)"
      "leading_space (TrimLeft (drop (leading_space s) s)) = 0" by blast
    have "s = (e @ a) @ TrimLeft s"
      using e(2) a(2) eq by (metis append.assoc)
    with a e eq have "blank (e @ a) \<and> s = (e @ a) @ TrimLeft s \<and> leading_space (TrimLeft s) = 0"
      by (simp add: blank_Cons)
    then show ?thesis by blast
  qed
qed

lemma TrimRight_decomp:
  "\<exists>b. blank b \<and> s = TrimRight s @ b \<and> trailing_space (TrimRight s) = 0"
proof (induction s rule: TrimRight.induct)
  case (1 s)
  show ?case
  proof (cases "trailing_space s = 0 \<or> s = []")
    case True
    then have "TrimRight s = s" by (subst TrimRight.simps) simp
    moreover from True have "trailing_space s = 0"
      by (auto simp: trailing_space_0 whiteSpace_nonempty)
    ultimately have "blank [] \<and> s = TrimRight s @ [] \<and> trailing_space (TrimRight s) = 0"
      by (simp add: blank_Nil)
    then show ?thesis by blast
  next
    case False
    let ?t = "take (length s - trailing_space s) s"
    from False have eq: "TrimRight s = TrimRight ?t"
      by (subst TrimRight.simps) simp
    from False obtain e where e: "e \<in> set whiteSpace" "s = ?t @ e"
      using trailing_space_pos by blast
    from 1[OF False] obtain b where b: "blank b" "?t = TrimRight ?t @ b"
      "trailing_space (TrimRight ?t) = 0" by blast
    have "s = TrimRight s @ (b @ e)"
      using e(2) b(2) eq by (metis append.assoc)
    with b e eq have "blank (b @ e) \<and> s = TrimRight s @ (b @ e) \<and> trailing_space (TrimRight s) = 0"
      by (simp add: blank_snoc)
    then show ?thesis by blast
  qed
qed

lemma TrimSpace_decomp:
  "\<exists>a b. blank a \<and> blank b \<and> s = a @ TrimSpace s @ b
     \<and> leading_space (TrimSpace s) = 0 \<and> trailing_space (TrimSpace s) = 0"
proof -
  from TrimLeft_decomp[of s] obtain a where a: "blank a" "s = a @ TrimLeft s"
    "leading_space (TrimLeft s) = 0" by blast
  from TrimRight_decomp[of "TrimLeft s"] obtain b where b: "blank b"
    "TrimLeft s = TrimSpace s @ b" "trailing_space (TrimSpace s) = 0"
    unfolding TrimSpace_def by blast
  have "leading_space (TrimSpace s) = 0"
    unfolding leading_space_0
  proof
    fix e assume "e \<in> set whiteSpace"
    with a(3) have "\<not> prefix e (TrimLeft s)" by (simp add: leading_space_0)
    then show "\<not> prefix e (TrimSpace s)" using b(2) by (metis prefix_prefix)
  qed
  moreover have "s = a @ TrimSpace s @ b" using a(2) b(2) by simp
  ultimately show ?thesis using a(1) b(1) b(3) by blast
qed

lemma whiteSpace_prefix_free_all:
  "list_all (\<lambda>e. list_all (\<lambda>e'. prefix e e' \<longrightarrow> e = e') whiteSpace) whiteSpace"
  by code_simp

lemma whiteSpace_suffix_free_all:
  "list_all (\<lambda>e. list_all (\<lambda>e'. suffix e e' \<longrightarrow> e = e') whiteSpace) whiteSpace"
  by code_simp

lemma whiteSpace_prefix_free:
  "e \<in> set whiteSpace \<Longrightarrow> e' \<in> set whiteSpace \<Longrightarrow> prefix e e' \<Longrightarrow> e = e'"
  using whiteSpace_prefix_free_all unfolding list_all_iff by blast

lemma whiteSpace_suffix_free:
  "e \<in> set whiteSpace \<Longrightarrow> e' \<in> set whiteSpace \<Longrightarrow> suffix e e' \<Longrightarrow> e = e'"
  using whiteSpace_suffix_free_all unfolding list_all_iff by blast

lemma leading_space_whiteSpace:
  assumes "e \<in> set whiteSpace"
  shows "leading_space (e @ r) = length e"
proof (cases "find (\<lambda>e'. prefix e' (e @ r)) whiteSpace")
  case None
  then have "\<forall>e'\<in>set whiteSpace. \<not> prefix e' (e @ r)" by (simp add: find_None_iff)
  with assms have "\<not> prefix e (e @ r)" by blast
  then show ?thesis by simp
next
  case (Some e')
  from find_SomeD[OF Some] have e': "e' \<in> set whiteSpace" "prefix e' (e @ r)" by simp_all
  have "prefix e (e @ r)" by simp
  with e'(2) have "prefix e e' \<or> prefix e' e" by (metis prefix_same_cases)
  with assms e'(1) have "e' = e" using whiteSpace_prefix_free by blast
  with Some show ?thesis by (simp add: leading_space_def)
qed

lemma trailing_space_whiteSpace:
  assumes "e \<in> set whiteSpace"
  shows "trailing_space (r @ e) = length e"
proof (cases "find (\<lambda>e'. suffix e' (r @ e)) whiteSpace")
  case None
  then have "\<forall>e'\<in>set whiteSpace. \<not> suffix e' (r @ e)" by (simp add: find_None_iff)
  with assms have "\<not> suffix e (r @ e)" by blast
  then show ?thesis by (auto simp: suffix_def)
next
  case (Some e')
  from find_SomeD[OF Some] have e': "e' \<in> set whiteSpace" "suffix e' (r @ e)" by simp_all
  have "suffix e (r @ e)" by (auto simp: suffix_def)
  with e'(2) have "suffix e e' \<or> suffix e' e" by (metis suffix_same_cases)
  with assms e'(1) have "e' = e" using whiteSpace_suffix_free by blast
  with Some show ?thesis by (simp add: trailing_space_def)
qed

lemma TrimLeft_whiteSpace: "e \<in> set whiteSpace \<Longrightarrow> TrimLeft (e @ r) = TrimLeft r"
  using whiteSpace_nonempty[of e]
  by (subst TrimLeft.simps) (simp add: leading_space_whiteSpace)

lemma TrimRight_whiteSpace: "e \<in> set whiteSpace \<Longrightarrow> TrimRight (r @ e) = TrimRight r"
  using whiteSpace_nonempty[of e]
  by (subst TrimRight.simps) (simp add: trailing_space_whiteSpace)

lemma TrimLeft_concat: "set ws \<subseteq> set whiteSpace \<Longrightarrow> TrimLeft (concat ws @ r) = TrimLeft r"
  by (induction ws) (simp_all add: TrimLeft_whiteSpace)

lemma TrimRight_concat: "set ws \<subseteq> set whiteSpace \<Longrightarrow> TrimRight (r @ concat ws) = TrimRight r"
proof (induction ws rule: rev_induct)
  case Nil
  then show ?case by simp
next
  case (snoc e ws)
  then have "TrimRight ((r @ concat ws) @ e) = TrimRight (r @ concat ws)"
    by (intro TrimRight_whiteSpace) simp
  with snoc show ?case by simp
qed

lemma TrimLeft_blank: "blank a \<Longrightarrow> TrimLeft (a @ r) = TrimLeft r"
  unfolding blank_def using TrimLeft_concat by blast

lemma TrimRight_blank: "blank b \<Longrightarrow> TrimRight (r @ b) = TrimRight r"
  unfolding blank_def using TrimRight_concat by blast

lemma TrimLeft_id: "leading_space s = 0 \<Longrightarrow> TrimLeft s = s"
  by (subst TrimLeft.simps) simp

lemma TrimRight_id: "trailing_space s = 0 \<Longrightarrow> TrimRight s = s"
  by (subst TrimRight.simps) simp

lemma TrimSpace_blank: "blank s \<Longrightarrow> TrimSpace s = []"
proof -
  assume "blank s"
  then have "TrimLeft (s @ []) = TrimLeft []" by (rule TrimLeft_blank)
  moreover have "TrimLeft [] = []" by (subst TrimLeft.simps) simp
  moreover have "TrimRight [] = []" by (subst TrimRight.simps) simp
  ultimately show ?thesis by (simp add: TrimSpace_def)
qed

lemma TrimSpace_idem: "TrimSpace (TrimSpace s) = TrimSpace s"
proof -
  from TrimSpace_decomp[of s] have "leading_space (TrimSpace s) = 0" "trailing_space (TrimSpace s) = 0"
    by blast+
  then have l: "TrimLeft (TrimSpace s) = TrimSpace s" and r: "TrimRight (TrimSpace s) = TrimSpace s"
    by (simp_all add: TrimLeft_id TrimRight_id)
  show ?thesis by (simp only: TrimSpace_def[of "TrimSpace s"] l r)
qed

text \<open>A word that neither begins with the first byte nor ends with the last byte of a white-space rune.\<close>

lemma leading_space_Cons:
  "c \<notin> set (map hd whiteSpace) \<Longrightarrow> leading_space (c # s) = 0"
proof -
  assume c: "c \<notin> set (map hd whiteSpace)"
  have "\<not> prefix e (c # s)" if "e \<in> set whiteSpace" for e
  proof
    assume "prefix e (c # s)"
    moreover from that have "e \<noteq> []" by (rule whiteSpace_nonempty)
    ultimately have "hd e = c" by (cases e) simp_all
    with that c show False by force
  qed
  then show ?thesis by (simp add: leading_space_0)
qed

lemma trailing_space_snoc:
  "c \<notin> set (map last whiteSpace) \<Longrightarrow> trailing_space (s @ [c]) = 0"
proof -
  assume c: "c \<notin> set (map last whiteSpace)"
  have "\<not> suffix e (s @ [c])" if "e \<in> set whiteSpace" for e
  proof
    assume "suffix e (s @ [c])"
    moreover from that have "e \<noteq> []" by (rule whiteSpace_nonempty)
    ultimately have "last e = c" by (cases e rule: rev_cases) simp_all
    with that c show False by force
  qed
  then show ?thesis by (simp add: trailing_space_0)
qed

lemma TrimSpace_word:
  assumes "blank a" and "blank b"
    and "c \<notin> set (map hd whiteSpace)" and "d \<notin> set (map last whiteSpace)"
    and "word = c # u" and "word = v @ [d]"
  shows "TrimSpace (a @ word @ b) = word"
proof -
  have "TrimLeft (a @ word @ b) = TrimLeft (word @ b)" using assms(1) by (rule TrimLeft_blank)
  also have "\<dots> = word @ b"
    using leading_space_Cons[OF assms(3), of "u @ b"] by (simp add: TrimLeft_id assms(5))
  finally have "TrimSpace (a @ word @ b) = TrimRight (word @ b)" by (simp add: TrimSpace_def)
  also have "\<dots> = TrimRight word" using assms(2) by (rule TrimRight_blank)
  also have "\<dots> = word" using trailing_space_snoc[OF assms(4), of v] by (simp add: TrimRight_id assms(6))
  finally show ?thesis .
qed

lemma TrimSpace_commands:
  assumes "blank a" and "blank b"
  shows "TrimSpace (a @ ''q'' @ b) = ''q''" and "TrimSpace (a @ ''quit'' @ b) = ''quit''"
    and "TrimSpace (a @ ''clear'' @ b) = ''clear''"
proof -
  show "TrimSpace (a @ ''q'' @ b) = ''q''"
    by (rule TrimSpace_word[OF assms, where c = "CHR ''q''" and d = "CHR ''q''" and u = "[]" and v = "[]"])
       (simp_all add: whiteSpace_def)
  show "TrimSpace (a @ ''quit'' @ b) = ''quit''"
    by (rule TrimSpace_word[OF assms, where c = "CHR ''q''" and d = "CHR ''t''" and u = "''uit''" and v = "''qui''"])
       (simp_all add: whiteSpace_def)
  show "TrimSpace (a @ ''clear'' @ b) = ''clear''"
    by (rule TrimSpace_word[OF assms, where c = "CHR ''c''" and d = "CHR ''r''" and u = "''lear''" and v = "''clea''"])
       (simp_all add: whiteSpace_def)
qed

section \<open>Properties of a turn\<close>

lemma executor_Turn:
  assumes "executor um net input history = Turn w"
  shows "w = \<lparr>script = executor_script (sendStreamRequest um net (history @ [\<lparr>Role = ''user'', Content = TrimSpace input\<rparr>])),
              parked = False, crashed = False, animpc = AnimEntry, wg = 1,
              conversationHistory = history @ [\<lparr>Role = ''user'', Content = TrimSpace input\<rparr>],
              terminal = []\<rparr>"
  using assms by (simp add: executor_def Let_def split: if_splits)

lemma script_of_prints: "concat (map (event_instrs \<circ> Emit) ds) = map Print ds"
  by (induction ds) simp_all

lemma never_stopped_start:
  assumes "executor um net input history = Turn w"
    and "sendStreamRequest um net (conversationHistory w) = ([], Returns r)"
  shows "never_stopped (conversationHistory w) r w"
proof -
  note w = executor_Turn[OF assms(1)]
  have h: "conversationHistory w = history @ [\<lparr>Role = ''user'', Content = TrimSpace input\<rparr>]"
    by (subst w) simp
  have s: "script w = [TrySendStop, WgWait, reconcile r]"
    using assms(2) unfolding h by (subst w) simp
  have rest: "\<not> parked w" "\<not> crashed w" "wg w = 1" "animpc w = AnimEntry"
    by (subst w, simp)+
  show ?thesis unfolding never_stopped_def animating_def using s rest by simp
qed

lemma in_turn_start:
  assumes "executor um net input history = Turn w"
    and "sendStreamRequest um net (conversationHistory w) = (StopAnimation # map Emit ds, Returns r)"
  shows "in_turn (conversationHistory w) ds r w"
proof -
  note w = executor_Turn[OF assms(1)]
  have h: "conversationHistory w = history @ [\<lparr>Role = ''user'', Content = TrimSpace input\<rparr>]"
    by (subst w) simp
  have s: "script w = SendStop # RecvDone # map Print ds @ [TrySendStop, WgWait, reconcile r]"
    using assms(2) unfolding h by (subst w) (simp add: script_of_prints)
  have rest: "\<not> crashed w" "wg w = 1" "animpc w = AnimEntry"
    by (subst w, simp)+
  have "stopping (conversationHistory w) (map Print ds @ [TrySendStop, WgWait, reconcile r]) w"
    unfolding stopping_def animating_def using s rest by simp
  then show ?thesis unfolding in_turn_def using h by simp
qed

text \<open>A failure other than a read error comes without any event.\<close>

lemma failure_without_events:
  assumes "snd (sendStreamRequest um net messages) = Returns (Inl err)" and "err \<noteq> ReadFailed"
  shows "sendStreamRequest um net messages = ([], Returns (Inl err))"
proof -
  from assms(1) have "sendStreamRequest um net messages = (fst (sendStreamRequest um net messages), Returns (Inl err))"
    by (metis prod.collapse)
  from sendStreamRequest_returns[OF this] assms(2) have "fst (sendStreamRequest um net messages) = []"
    by (auto split: if_splits)
  with assms(1) show ?thesis by (metis prod.collapse)
qed

lemma success_with_events:
  assumes "snd (sendStreamRequest um net messages) = Returns (Inr fullContent)"
  shows "\<exists>ds. sendStreamRequest um net messages = (StopAnimation # map Emit ds, Returns (Inr fullContent))"
proof -
  from assms have "sendStreamRequest um net messages = (fst (sendStreamRequest um net messages), Returns (Inr fullContent))"
    by (metis prod.collapse)
  from sendStreamRequest_returns[OF this]
  obtain ds where "fst (sendStreamRequest um net messages) = StopAnimation # map Emit ds"
    by (auto split: if_splits)
  with assms have "sendStreamRequest um net messages = (StopAnimation # map Emit ds, Returns (Inr fullContent))"
    by (metis prod.collapse)
  then show ?thesis ..
qed

section \<open>The claims about the turn controller\<close>

text \<open>
  Claim C2 says that after a failed request the provisional user message is removed. In
  the code this is line 237, but the main goroutine does not get there when the request
  has failed before any reply text arrived (a marshalling, request or transport error, a
  status other than 200, an empty answer): the animation has not been stopped, the
  \<open>select\<close> of line 224 finds no receiver waiting on \<open>stopChan\<close> and takes \<open>default\<close>,
  and \<open>wg.Wait()\<close> then waits for an animation goroutine that nobody stops any more.
  Under every schedule \<open>executor\<close> has not returned, and the history still ends with
  the user message.
\<close>

theorem failed_turn_blocks_before_rollback:
  assumes "executor um net input history = Turn w"
    and "snd (sendStreamRequest um net (conversationHistory w)) = Returns (Inl err)"
    and "err \<noteq> ReadFailed"
  shows "\<not> returned (run sched w)
         \<and> conversationHistory (run sched w) = history @ [\<lparr>Role = ''user'', Content = TrimSpace input\<rparr>]"
proof -
  from failure_without_events[OF assms(2,3)]
  have "never_stopped (conversationHistory w) (Inl err) w"
    by (rule never_stopped_start[OF assms(1)])
  then have "never_stopped (conversationHistory w) (Inl err) (run sched w)"
    by (rule never_stopped_run)
  moreover have "conversationHistory w = history @ [\<lparr>Role = ''user'', Content = TrimSpace input\<rparr>]"
    by (subst executor_Turn[OF assms(1)]) simp
  ultimately show ?thesis
    by (auto simp: never_stopped_def returned_def)
qed

text \<open>
  Claim C7: a response whose status is not 200 makes the consumer fail with that status,
  whatever the body (it is not read: no event, and the result does not depend on the lines
  or on the scanner's error), after the one request; and in such a turn the history never
  gets an assistant message: under every schedule it is the old history followed by the
  user message.
\<close>

theorem bad_status_fails_at_once:
  "(net messages = Response status lines scanErr \<and> status \<noteq> StatusOK \<longrightarrow>
      sendStreamRequest um net messages = ([], Returns (Inl (BadStatus status))))
   \<and> (executor um net input history = Turn w
        \<and> net (conversationHistory w) = Response status lines scanErr \<and> status \<noteq> StatusOK \<longrightarrow>
      conversationHistory (run sched w) = history @ [\<lparr>Role = ''user'', Content = TrimSpace input\<rparr>])"
proof (intro conjI impI)
  assume "net messages = Response status lines scanErr \<and> status \<noteq> StatusOK"
  then show "sendStreamRequest um net messages = ([], Returns (Inl (BadStatus status)))"
    by (simp add: sendStreamRequest_def)
next
  assume a: "executor um net input history = Turn w
        \<and> net (conversationHistory w) = Response status lines scanErr \<and> status \<noteq> StatusOK"
  then have e: "executor um net input history = Turn w" by simp
  from a have "sendStreamRequest um net (conversationHistory w) = ([], Returns (Inl (BadStatus status)))"
    by (simp add: sendStreamRequest_def)
  then have "never_stopped (conversationHistory w) (Inl (BadStatus status)) w"
    by (rule never_stopped_start[OF e])
  then have "never_stopped (conversationHistory w) (Inl (BadStatus status)) (run sched w)"
    by (rule never_stopped_run)
  moreover have "conversationHistory w = history @ [\<lparr>Role = ''user'', Content = TrimSpace input\<rparr>]"
    by (subst executor_Turn[OF e]) simp
  ultimately show "conversationHistory (run sched w) = history @ [\<lparr>Role = ''user'', Content = TrimSpace input\<rparr>]"
    by (simp add: never_stopped_def)
qed

end
